theory Spec2Isabelle
  imports Main "HOL-Library.Char_ord" "HOL-Library.List_Lexorder"
begin

section \<open>resolve\_found\_already\_linked.py: data and the remote service\<close>

text \<open>
  The script talks to a remote identity-management service over HTTP.  The service is
  a parameter of the model: a function from its own state and a request to a reply and
  a new state.  Everything the script does to the outside world goes through
  \<open>send\<close>, which also appends the exchange to a trace, so that properties such as
  "no delete call is issued" are statements about that trace.

  Module constants that the operator edits before a run (\<open>TENANT_HOST\<close>,
  \<open>MAPPING_NAME\<close>, \<open>SAMPLE_SIZE\<close>) are the members of \<open>config\<close>.
\<close>

record config =
  tenant_host :: string
  mapping_name :: string
  sample_size :: int

definition BASE_URL :: "config \<Rightarrow> string" where
  "BASE_URL cfg = ''https://'' @ tenant_host cfg @ ''/openidm''"

definition TOKEN_ENDPOINT :: "config \<Rightarrow> string" where
  "TOKEN_ENDPOINT cfg = ''https://'' @ tenant_host cfg @ ''/am/oauth2/access_token''"

text \<open>
  Python exceptions that the script can meet.  \<open>SystemExit\<close> derives from
  \<open>BaseException\<close> only; the others derive from \<open>Exception\<close>, which is what the
  \<open>except Exception\<close> clause of the delete loop catches.
\<close>

datatype error =
    HTTPError nat
  | RequestException
  | KeyError string
  | AttributeError
  | IndexError
  | SystemExit int

fun is_Exception :: "error \<Rightarrow> bool" where
  "is_Exception (SystemExit _) = False"
| "is_Exception _ = True"

text \<open>
  JSON as the script reads it.  An entry or a link record is a JSON object with string
  members (\<open>sourceObjectId\<close>, \<open>targetObjectId\<close>, \<open>_id\<close>, \<open>_rev\<close>,
  \<open>firstId\<close>, \<open>secondId\<close>, \<open>linkType\<close>); a missing member is \<open>None\<close>, which
  is what \<open>dict.get\<close> returns and where \<open>dict[...]\<close> raises \<open>KeyError\<close>.
  A reconciliation run has string members and the nested \<open>situationSummary\<close>.
  A response body is a JSON object with the members the script looks at.
\<close>

type_synonym jobj = "string \<rightharpoonup> string"

record recon_run =
  members :: jobj
  situationSummary :: "(string \<rightharpoonup> int) option"

record body =
  reconciliations :: "recon_run list option"
  result :: "jobj list option"
  pagedResultsCookie :: "string option"
  access_token :: "string option"

datatype meth = GET | DELETE | POST

record request =
  meth :: meth
  url :: string
  params :: "(string \<times> string) list"
  authorization :: "string option"
  if_match :: "string option"

text \<open>
  \<open>NoReply\<close>: the \<open>requests\<close> call itself raised (connection failure, timeout).
\<close>

datatype reply = Reply nat body | NoReply

text \<open>
  \<open>set_swap\<close> stands for the iteration order of a two-element Python \<open>set\<close> of
  strings, which the language leaves open.
\<close>

record 'w env =
  http :: "'w \<Rightarrow> request \<Rightarrow> reply \<times> 'w"
  set_swap :: "string \<Rightarrow> string \<Rightarrow> bool"

datatype run_mode = DryRun | Sample int | All

record summary =
  total_entries :: nat
  sampled :: "nat option"
  links_deleted :: nat
  links_not_found :: nat
  failures :: nat
  dry_run_note :: bool

text \<open>
  The lines the script prints that carry data, one constructor per message (blank lines,
  rulers and the fixed progress headings are left out).
\<close>

datatype event =
    Banner string string run_mode
  | TokenAcquired
  | TokenExpired
  | NoReconFound string
  | ReconIdLine string
  | ReconStateLine string
  | ReconStartedLine "string option"
  | ReconCountLine int
  | NothingToDo
  | FetchedPage nat nat
  | TotalEntries nat
  | NoEntriesFound
  | SampleMode nat nat
  | DryRunMode nat
  | EntryLine nat nat "string option" "string option"
  | WarnNoLink string
  | FoundLink string string string
  | WouldDelete string
  | DeletedLink string
  | ErrorDeleting string error
  | SummaryLines summary

text \<open>
  The state of a run: the service, the cached bearer token of the global
  \<open>token_mgr\<close>, the trace of HTTP exchanges and the printed output.
\<close>

record 'w state =
  server :: 'w
  token :: "string option"
  trace :: "(request \<times> reply) list"
  out :: "event list"

definition print :: "event \<Rightarrow> 'w state \<Rightarrow> 'w state" where
  "print e s = s\<lparr>out := out s @ [e]\<rparr>"

definition send :: "'w env \<Rightarrow> request \<Rightarrow> 'w state \<Rightarrow> reply \<times> 'w state" where
  "send env q s =
     (case http env (server s) q of
        (rp, w') \<Rightarrow> (rp, s\<lparr>server := w', trace := trace s @ [(q, rp)]\<rparr>))"

text \<open>
  \<open>Response.raise_for_status\<close> of the \<open>requests\<close> library raises \<open>HTTPError\<close>
  exactly for the client and server error codes 400 to 599.
\<close>

definition raise_for_status :: "nat \<Rightarrow> bool" where
  "raise_for_status code = (400 \<le> code \<and> code < 600)"

section \<open>TokenManager\<close>

text \<open>
  \<open>TokenManager.__init__\<close> reads the key file and leaves \<open>_token\<close> empty; the model
  starts from there (\<open>token = None\<close> in \<open>init_state\<close>), a run whose key file cannot
  be read never reaching any of the functions below.

  \<open>refresh\<close> posts a signed assertion to the token endpoint.  The assertion (time
  stamp, nonce, signature) is opaque to the rest of the script and is not modelled;
  the reply is whatever the service answers.
\<close>

definition token_request :: "config \<Rightarrow> request" where
  "token_request cfg =
     \<lparr>meth = POST, url = TOKEN_ENDPOINT cfg, params = [],
      authorization = None, if_match = None\<rparr>"

definition refresh :: "'w env \<Rightarrow> config \<Rightarrow> 'w state \<Rightarrow> (error + unit) \<times> 'w state" where
  "refresh env cfg s =
     (case send env (token_request cfg) s of
        (NoReply, s1) \<Rightarrow> (Inl RequestException, s1)
      | (Reply code data, s1) \<Rightarrow>
          if raise_for_status code then (Inl (HTTPError code), s1)
          else (case access_token data of
                  None \<Rightarrow> (Inl (KeyError ''access_token''), s1)
                | Some t \<Rightarrow> (Inr (), print TokenAcquired (s1\<lparr>token := Some t\<rparr>))))"

text \<open>The property \<open>token\<close>: \<open>if not self._token: self.refresh()\<close>.\<close>

definition falsy :: "string option \<Rightarrow> bool" where
  "falsy v = (v = None \<or> v = Some [])"

definition get_token ::
  "'w env \<Rightarrow> config \<Rightarrow> 'w state \<Rightarrow> (error + string option) \<times> 'w state" where
  "get_token env cfg s =
     (if falsy (token s) then
        (case refresh env cfg s of
           (Inl e, s1) \<Rightarrow> (Inl e, s1)
         | (Inr _, s1) \<Rightarrow> (Inr (token s1), s1))
      else (Inr (token s), s))"

section \<open>\_do\_request, api\_get, api\_delete\<close>

definition bearer :: "string option \<Rightarrow> string" where
  "bearer tok = ''Bearer '' @ (case tok of None \<Rightarrow> ''None'' | Some t \<Rightarrow> t)"

definition mk_request ::
  "config \<Rightarrow> meth \<Rightarrow> string \<Rightarrow> (string \<times> string) list \<Rightarrow> string option \<Rightarrow> string option
     \<Rightarrow> request" where
  "mk_request cfg m path ps rv tok =
     \<lparr>meth = m, url = BASE_URL cfg @ path, params = ps,
      authorization = Some (bearer tok),
      if_match = (if falsy rv then None else rv)\<rparr>"

datatype 'a flow = Continue | Return 'a | Raise error

text \<open>The body of the \<open>for attempt in range(2)\<close> loop, for one value of \<open>attempt\<close>.\<close>

definition do_request_attempt ::
  "'w env \<Rightarrow> config \<Rightarrow> meth \<Rightarrow> string \<Rightarrow> (string \<times> string) list \<Rightarrow> string option \<Rightarrow> nat
     \<Rightarrow> 'w state \<Rightarrow> body flow \<times> 'w state" where
  "do_request_attempt env cfg m path ps rv attempt s =
     (case get_token env cfg s of
        (Inl e, s1) \<Rightarrow> (Raise e, s1)
      | (Inr tok, s1) \<Rightarrow>
          (case send env (mk_request cfg m path ps rv tok) s1 of
             (NoReply, s2) \<Rightarrow> (Raise RequestException, s2)
           | (Reply code data, s2) \<Rightarrow>
               if code = 401 \<and> attempt = 0 then
                 (case refresh env cfg (print TokenExpired s2) of
                    (Inl e, s3) \<Rightarrow> (Raise e, s3)
                  | (Inr _, s3) \<Rightarrow> (Continue, s3))
               else if raise_for_status code then (Raise (HTTPError code), s2)
               else (Return data, s2)))"

text \<open>
  The loop over the attempts.  A Python function that falls off the end of its loop
  returns \<open>None\<close>: the result is \<open>body option\<close>.
\<close>

fun do_request_loop ::
  "'w env \<Rightarrow> config \<Rightarrow> meth \<Rightarrow> string \<Rightarrow> (string \<times> string) list \<Rightarrow> string option \<Rightarrow> nat list
     \<Rightarrow> 'w state \<Rightarrow> (error + body option) \<times> 'w state" where
  "do_request_loop env cfg m path ps rv [] s = (Inr None, s)"
| "do_request_loop env cfg m path ps rv (attempt # rest) s =
     (case do_request_attempt env cfg m path ps rv attempt s of
        (Continue, s') \<Rightarrow> do_request_loop env cfg m path ps rv rest s'
      | (Return data, s') \<Rightarrow> (Inr (Some data), s')
      | (Raise e, s') \<Rightarrow> (Inl e, s'))"

definition do_request ::
  "'w env \<Rightarrow> config \<Rightarrow> meth \<Rightarrow> string \<Rightarrow> (string \<times> string) list \<Rightarrow> string option
     \<Rightarrow> 'w state \<Rightarrow> (error + body option) \<times> 'w state" where
  "do_request env cfg m path ps rv s = do_request_loop env cfg m path ps rv [0, 1] s"

definition api_get ::
  "'w env \<Rightarrow> config \<Rightarrow> string \<Rightarrow> (string \<times> string) list
     \<Rightarrow> 'w state \<Rightarrow> (error + body option) \<times> 'w state" where
  "api_get env cfg path ps s = do_request env cfg GET path ps None s"

definition api_delete ::
  "'w env \<Rightarrow> config \<Rightarrow> string \<Rightarrow> string
     \<Rightarrow> 'w state \<Rightarrow> (error + body option) \<times> 'w state" where
  "api_delete env cfg path rv s = do_request env cfg DELETE path [] (Some rv) s"

section \<open>find\_latest\_recon\<close>

text \<open>\<open>data.get(key, [])\<close> on the value \<open>_do_request\<close> returned.\<close>

definition get_reconciliations :: "body option \<Rightarrow> error + recon_run list" where
  "get_reconciliations data =
     (case data of
        None \<Rightarrow> Inl AttributeError
      | Some b \<Rightarrow> Inr (case reconciliations b of None \<Rightarrow> [] | Some rs \<Rightarrow> rs))"

definition get_result :: "body \<Rightarrow> jobj list" where
  "get_result b = (case result b of None \<Rightarrow> [] | Some xs \<Rightarrow> xs)"

definition started_key :: "recon_run \<Rightarrow> string" where
  "started_key r = (case members r ''started'' of None \<Rightarrow> [] | Some t \<Rightarrow> t)"

text \<open>
  \<open>list.sort(key=f, reverse=True)\<close>: a stable sort in descending order of the keys
  (elements with equal keys keep their relative order).
\<close>

definition sort_desc :: "('a \<Rightarrow> 'k::linorder) \<Rightarrow> 'a list \<Rightarrow> 'a list" where
  "sort_desc f xs = rev (sort_key f (rev xs))"

definition find_latest_recon ::
  "'w env \<Rightarrow> config \<Rightarrow> 'w state \<Rightarrow> (error + recon_run) \<times> 'w state" where
  "find_latest_recon env cfg s =
     (case api_get env cfg ''/recon'' [] s of
        (Inl e, s1) \<Rightarrow> (Inl e, s1)
      | (Inr data, s1) \<Rightarrow>
          (case get_reconciliations data of
             Inl e \<Rightarrow> (Inl e, s1)
           | Inr rs \<Rightarrow>
               (let recons = filter (\<lambda>r. members r ''mapping'' = Some (mapping_name cfg)) rs
                in if recons = [] then
                     (Inl (SystemExit 1), print (NoReconFound (mapping_name cfg)) s1)
                   else
                     (case sort_desc started_key recons of
                        [] \<Rightarrow> (Inl IndexError, s1)
                      | latest # _ \<Rightarrow> (Inr latest, s1)))))"

section \<open>get\_found\_already\_linked\_entries\<close>

definition quoted :: "string \<Rightarrow> string" where
  "quoted x = [CHR 0x22] @ x @ [CHR 0x22]"

definition page_params :: "string option \<Rightarrow> (string \<times> string) list" where
  "page_params cookie =
     [(''_queryFilter'', ''situation eq '' @ quoted ''FOUND_ALREADY_LINKED''),
      (''_pageSize'', ''500'')]
     @ (case cookie of
          None \<Rightarrow> []
        | Some c \<Rightarrow> if c = [] then [] else [(''_pagedResultsCookie'', c)])"

definition entry_path :: "string \<Rightarrow> string" where
  "entry_path recon_id = ''/recon/assoc/'' @ recon_id @ ''/entry''"

text \<open>
  The \<open>while True\<close> loop.  Nothing in the script bounds the number of pages, so the
  loop is a partial function: \<open>None\<close> is a run that never leaves the loop.
\<close>

partial_function (option) entries_loop ::
  "'w env \<Rightarrow> config \<Rightarrow> string \<Rightarrow> jobj list \<Rightarrow> string option \<Rightarrow> nat \<Rightarrow> 'w state
     \<Rightarrow> ((error + jobj list) \<times> 'w state) option" where
  "entries_loop env cfg recon_id entries cookie page s =
     (case api_get env cfg (entry_path recon_id) (page_params cookie) s of
        (Inl e, s1) \<Rightarrow> Some (Inl e, s1)
      | (Inr None, s1) \<Rightarrow> Some (Inl AttributeError, s1)
      | (Inr (Some data), s1) \<Rightarrow>
          (let batch = get_result data;
               entries' = entries @ batch;
               page' = page + 1;
               s2 = print (FetchedPage page' (length batch)) s1;
               cookie' = pagedResultsCookie data
           in if falsy cookie' \<or> length batch = 0 then Some (Inr entries', s2)
              else entries_loop env cfg recon_id entries' cookie' page' s2))"

declare entries_loop.simps [code]

definition get_found_already_linked_entries ::
  "'w env \<Rightarrow> config \<Rightarrow> string \<Rightarrow> 'w state \<Rightarrow> ((error + jobj list) \<times> 'w state) option" where
  "get_found_already_linked_entries env cfg recon_id s =
     entries_loop env cfg recon_id [] None 0 s"

section \<open>find\_link\<close>

text \<open>\<open>set(filter(None, [source_id, target_id]))\<close>, in the order the set is iterated.\<close>

definition truthy_ids :: "string option list \<Rightarrow> string list" where
  "truthy_ids vs = concat (map (\<lambda>v. case v of None \<Rightarrow> [] | Some x \<Rightarrow> if x = [] then [] else [x]) vs)"

definition search_ids :: "'w env \<Rightarrow> string option \<Rightarrow> string option \<Rightarrow> string list" where
  "search_ids env source_id target_id =
     (case remdups (truthy_ids [source_id, target_id]) of
        [a, b] \<Rightarrow> if set_swap env a b then [b, a] else [a, b]
      | ids \<Rightarrow> ids)"

definition link_filter :: "string \<Rightarrow> string \<Rightarrow> (string \<times> string) list" where
  "link_filter fld search_id = [(''_queryFilter'', fld @ '' eq '' @ quoted search_id)]"

fun query_fields ::
  "'w env \<Rightarrow> config \<Rightarrow> string \<Rightarrow> string list \<Rightarrow> jobj list \<Rightarrow> 'w state
     \<Rightarrow> (error + jobj list) \<times> 'w state" where
  "query_fields env cfg search_id [] candidates s = (Inr candidates, s)"
| "query_fields env cfg search_id (fld # flds) candidates s =
     (case api_get env cfg ''/repo/link'' (link_filter fld search_id) s of
        (Inl e, s1) \<Rightarrow> (Inl e, s1)
      | (Inr None, s1) \<Rightarrow> (Inl AttributeError, s1)
      | (Inr (Some data), s1) \<Rightarrow>
          query_fields env cfg search_id flds (candidates @ get_result data) s1)"

fun query_ids ::
  "'w env \<Rightarrow> config \<Rightarrow> string list \<Rightarrow> jobj list \<Rightarrow> 'w state
     \<Rightarrow> (error + jobj list) \<times> 'w state" where
  "query_ids env cfg [] candidates s = (Inr candidates, s)"
| "query_ids env cfg (search_id # ids) candidates s =
     (case query_fields env cfg search_id [''firstId'', ''secondId''] candidates s of
        (Inl e, s1) \<Rightarrow> (Inl e, s1)
      | (Inr candidates', s1) \<Rightarrow> query_ids env cfg ids candidates' s1)"

text \<open>Deduplicate by \<open>_id\<close>: the first record of each identifier is kept.\<close>

fun dedupe :: "jobj list \<Rightarrow> string set \<Rightarrow> jobj list \<Rightarrow> error + jobj list" where
  "dedupe [] seen unique = Inr unique"
| "dedupe (c # cs) seen unique =
     (case c ''_id'' of
        None \<Rightarrow> Inl (KeyError ''_id'')
      | Some i \<Rightarrow>
          if i \<notin> seen then dedupe cs (insert i seen) (unique @ [c])
          else dedupe cs seen unique)"

definition find_link ::
  "'w env \<Rightarrow> config \<Rightarrow> string option \<Rightarrow> string option \<Rightarrow> 'w state
     \<Rightarrow> (error + jobj list) \<times> 'w state" where
  "find_link env cfg source_id target_id s =
     (case query_ids env cfg (search_ids env source_id target_id) [] s of
        (Inl e, s1) \<Rightarrow> (Inl e, s1)
      | (Inr candidates, s1) \<Rightarrow>
          (case dedupe candidates {} [] of
             Inl e \<Rightarrow> (Inl e, s1)
           | Inr unique \<Rightarrow>
               (Inr (filter (\<lambda>c. c ''linkType'' = Some (mapping_name cfg)) unique), s1)))"

section \<open>main\<close>

record counters =
  deleted :: nat
  failed :: nat
  not_found :: nat

text \<open>The body of \<open>for link in links\<close>.\<close>

definition process_link ::
  "'w env \<Rightarrow> config \<Rightarrow> bool \<Rightarrow> jobj \<Rightarrow> counters \<Rightarrow> 'w state
     \<Rightarrow> (error + counters) \<times> 'w state" where
  "process_link env cfg dry_run link c s =
     (case link ''_id'' of
        None \<Rightarrow> (Inl (KeyError ''_id''), s)
      | Some link_id \<Rightarrow>
     (case link ''_rev'' of
        None \<Rightarrow> (Inl (KeyError ''_rev''), s)
      | Some link_rev \<Rightarrow>
     (case link ''firstId'' of
        None \<Rightarrow> (Inl (KeyError ''firstId''), s)
      | Some first_id \<Rightarrow>
     (case link ''secondId'' of
        None \<Rightarrow> (Inl (KeyError ''secondId''), s)
      | Some second_id \<Rightarrow>
          (let s1 = print (FoundLink link_id first_id second_id) s
           in if dry_run then (Inr c, print (WouldDelete link_id) s1)
              else
                (case api_delete env cfg (''/repo/link/'' @ link_id) link_rev s1 of
                   (Inr _, s2) \<Rightarrow>
                     (Inr (c\<lparr>deleted := deleted c + 1\<rparr>), print (DeletedLink link_id) s2)
                 | (Inl e, s2) \<Rightarrow>
                     if is_Exception e then
                       (Inr (c\<lparr>failed := failed c + 1\<rparr>), print (ErrorDeleting link_id e) s2)
                     else (Inl e, s2)))))))"

fun process_links ::
  "'w env \<Rightarrow> config \<Rightarrow> bool \<Rightarrow> jobj list \<Rightarrow> counters \<Rightarrow> 'w state
     \<Rightarrow> (error + counters) \<times> 'w state" where
  "process_links env cfg dry_run [] c s = (Inr c, s)"
| "process_links env cfg dry_run (link # links) c s =
     (case process_link env cfg dry_run link c s of
        (Inl e, s1) \<Rightarrow> (Inl e, s1)
      | (Inr c1, s1) \<Rightarrow> process_links env cfg dry_run links c1 s1)"

text \<open>The body of \<open>for i, entry in enumerate(to_process, 1)\<close>; \<open>n = len(to_process)\<close>.\<close>

definition process_entry ::
  "'w env \<Rightarrow> config \<Rightarrow> bool \<Rightarrow> nat \<Rightarrow> nat \<Rightarrow> jobj \<Rightarrow> counters \<Rightarrow> 'w state
     \<Rightarrow> (error + counters) \<times> 'w state" where
  "process_entry env cfg dry_run n i entry c s =
     (let source_id = entry ''sourceObjectId'';
          target_id = entry ''targetObjectId'';
          s1 = print (EntryLine i n source_id target_id) s
      in case find_link env cfg source_id target_id s1 of
           (Inl e, s2) \<Rightarrow> (Inl e, s2)
         | (Inr links, s2) \<Rightarrow>
             if links = [] then
               (Inr (c\<lparr>not_found := not_found c + 1\<rparr>), print (WarnNoLink (mapping_name cfg)) s2)
             else process_links env cfg dry_run links c s2)"

fun process_entries ::
  "'w env \<Rightarrow> config \<Rightarrow> bool \<Rightarrow> nat \<Rightarrow> nat \<Rightarrow> jobj list \<Rightarrow> counters \<Rightarrow> 'w state
     \<Rightarrow> (error + counters) \<times> 'w state" where
  "process_entries env cfg dry_run n i [] c s = (Inr c, s)"
| "process_entries env cfg dry_run n i (entry # rest) c s =
     (case process_entry env cfg dry_run n i entry c s of
        (Inl e, s1) \<Rightarrow> (Inl e, s1)
      | (Inr c1, s1) \<Rightarrow> process_entries env cfg dry_run n (i + 1) rest c1 s1)"

text \<open>Lines 228 to 235: which of the fetched entries the loop runs over.\<close>

definition to_process :: "int \<Rightarrow> 'a list \<Rightarrow> 'a list" where
  "to_process sample entries =
     (if sample > 0 then take (nat sample) entries
      else if sample = 0 then entries
      else entries)"

definition announce_mode :: "int \<Rightarrow> jobj list \<Rightarrow> 'w state \<Rightarrow> 'w state" where
  "announce_mode sample entries s =
     (if sample > 0 then print (SampleMode (length (to_process sample entries)) (length entries)) s
      else if sample = 0 then print (DryRunMode (length entries)) s
      else s)"

definition run_mode_of :: "int \<Rightarrow> run_mode" where
  "run_mode_of sample = (if sample = 0 then DryRun else if sample > 0 then Sample sample else All)"

definition fal_count_of :: "recon_run \<Rightarrow> int" where
  "fal_count_of recon =
     (case situationSummary recon of
        None \<Rightarrow> 0
      | Some sm \<Rightarrow> (case sm ''FOUND_ALREADY_LINKED'' of None \<Rightarrow> 0 | Some k \<Rightarrow> k))"

definition init_state :: "'w \<Rightarrow> 'w state" where
  "init_state w = \<lparr>server = w, token = None, trace = [], out = []\<rparr>"

definition zero_counters :: counters where
  "zero_counters = \<lparr>deleted = 0, failed = 0, not_found = 0\<rparr>"

text \<open>
  How a run that raised nothing ended: the two early returns, or the summary.
\<close>

datatype outcome = Nothing_To_Do | No_Entries | Finished summary

text \<open>Step 4 of \<open>main\<close>: the loop over the entries and the summary.\<close>

definition delete_step ::
  "'w env \<Rightarrow> config \<Rightarrow> jobj list \<Rightarrow> 'w state \<Rightarrow> (error + outcome) \<times> 'w state" where
  "delete_step env cfg entries s =
     (let dry_run = (sample_size cfg = 0);
          todo = to_process (sample_size cfg) entries;
          s1 = announce_mode (sample_size cfg) entries s
      in case process_entries env cfg dry_run (length todo) 1 todo zero_counters s1 of
           (Inl e, s2) \<Rightarrow> (Inl e, s2)
         | (Inr c, s2) \<Rightarrow>
             (let sm = \<lparr>total_entries = length entries,
                        sampled = (if sample_size cfg > 0 then Some (length todo) else None),
                        links_deleted = deleted c,
                        links_not_found = not_found c,
                        failures = failed c,
                        dry_run_note = dry_run\<rparr>
              in (Inr (Finished sm), print (SummaryLines sm) s2)))"

definition main ::
  "'w env \<Rightarrow> config \<Rightarrow> 'w \<Rightarrow> ((error + outcome) \<times> 'w state) option" where
  "main env cfg w =
     (let s0 = print (Banner (tenant_host cfg) (mapping_name cfg) (run_mode_of (sample_size cfg)))
                 (init_state w)
      in case find_latest_recon env cfg s0 of
           (Inl e, s1) \<Rightarrow> Some (Inl e, s1)
         | (Inr recon, s1) \<Rightarrow>
         (case members recon ''_id'' of
            None \<Rightarrow> Some (Inl (KeyError ''_id''), s1)
          | Some recon_id \<Rightarrow>
         (let fal_count = fal_count_of recon;
              s2 = print (ReconIdLine recon_id) s1
          in case members recon ''state'' of
               None \<Rightarrow> Some (Inl (KeyError ''state''), s2)
             | Some st \<Rightarrow>
             (let s3 = print (ReconCountLine fal_count)
                         (print (ReconStartedLine (members recon ''started''))
                           (print (ReconStateLine st) s2))
              in if fal_count = 0 then Some (Inr Nothing_To_Do, print NothingToDo s3)
                 else
                   (case get_found_already_linked_entries env cfg recon_id s3 of
                      None \<Rightarrow> None
                    | Some (Inl e, s4) \<Rightarrow> Some (Inl e, s4)
                    | Some (Inr entries, s4) \<Rightarrow>
                        (let s5 = print (TotalEntries (length entries)) s4
                         in if entries = [] then Some (Inr No_Entries, print NoEntriesFound s5)
                            else Some (delete_step env cfg entries s5)))))))"

section \<open>Observations on a run\<close>

text \<open>
  The predicates the properties below are stated with: what a call may add to the
  trace of requests and to the printed output, and which requests and lines are of
  which kind.
\<close>

definition quiet :: "event \<Rightarrow> bool" where
  "quiet e = (e = TokenAcquired \<or> e = TokenExpired)"

definition extends ::
  "(request \<Rightarrow> bool) \<Rightarrow> (event \<Rightarrow> bool) \<Rightarrow> 'w state \<Rightarrow> 'w state \<Rightarrow> bool" where
  "extends Q E s s' =
     (\<exists>tr evs. trace s' = trace s @ tr \<and> out s' = out s @ evs \<and>
        (\<forall>x \<in> set tr. Q (fst x)) \<and> (\<forall>e \<in> set evs. E e))"

definition issued :: "config \<Rightarrow> meth \<Rightarrow> string \<Rightarrow> (string \<times> string) list \<Rightarrow> string option
  \<Rightarrow> request \<Rightarrow> bool" where
  "issued cfg m path ps rv q = (meth q = POST \<or> (\<exists>tok. q = mk_request cfg m path ps rv tok))"

fun link_event :: "event \<Rightarrow> bool" where
  "link_event TokenAcquired = True"
| "link_event TokenExpired = True"
| "link_event (FoundLink _ _ _) = True"
| "link_event (WouldDelete _) = True"
| "link_event (DeletedLink _) = True"
| "link_event (ErrorDeleting _ _) = True"
| "link_event _ = False"

fun is_entry_line :: "event \<Rightarrow> bool" where
  "is_entry_line (EntryLine _ _ _ _) = True"
| "is_entry_line _ = False"

definition entry_line :: "nat \<Rightarrow> nat \<times> jobj \<Rightarrow> event" where
  "entry_line n p = EntryLine (fst p) n ((snd p) ''sourceObjectId'') ((snd p) ''targetObjectId'')"


definition only_id :: "string option \<Rightarrow> string option \<Rightarrow> string \<Rightarrow> bool" where
  "only_id source_id target_id x =
     (x \<noteq> [] \<and> ((source_id = Some x \<and> falsy target_id) \<or> (falsy source_id \<and> target_id = Some x)))"

text \<open>
  The pages a call of \<open>get_found_already_linked_entries\<close> requests, as a relation:
  \<open>fetches env cfg recon_id cookie page s batches s'\<close> holds when, from the state \<open>s\<close>
  with the continuation token \<open>cookie\<close> and \<open>page\<close> pages read so far, the successive
  page requests return the result lists \<open>batches\<close>, the last of them from the first
  page that carries no continuation token or no entry, and leave the state \<open>s'\<close>.
\<close>

text \<open>
  The parameters of a page request as the specification gives them: the situation filter,
  the page size 500 and, once a page has returned a continuation token, that token.
\<close>

definition page_query :: "string option \<Rightarrow> (string \<times> string) list" where
  "page_query cookie =
     (''_queryFilter'', ''situation eq '' @ [CHR 0x22] @ ''FOUND_ALREADY_LINKED'' @ [CHR 0x22])
     # (''_pageSize'', ''500'')
     # (case cookie of
          None \<Rightarrow> []
        | Some [] \<Rightarrow> []
        | Some (c # cs) \<Rightarrow> [(''_pagedResultsCookie'', c # cs)])"

inductive fetches ::
  "'w env \<Rightarrow> config \<Rightarrow> string \<Rightarrow> string option \<Rightarrow> nat \<Rightarrow> 'w state \<Rightarrow> jobj list list
     \<Rightarrow> 'w state \<Rightarrow> bool"
  for env :: "'w env" and cfg :: config and recon_id :: string where
  final:
    "api_get env cfg (''/recon/assoc/'' @ recon_id @ ''/entry'') (page_query cookie) s
       = (Inr (Some data), s1) \<Longrightarrow>
     falsy (pagedResultsCookie data) \<or> get_result data = [] \<Longrightarrow>
     fetches env cfg recon_id cookie page s [get_result data]
       (print (FetchedPage (page + 1) (length (get_result data))) s1)"
| more:
    "api_get env cfg (''/recon/assoc/'' @ recon_id @ ''/entry'') (page_query cookie) s
       = (Inr (Some data), s1) \<Longrightarrow>
     \<not> falsy (pagedResultsCookie data) \<Longrightarrow> get_result data \<noteq> [] \<Longrightarrow>
     fetches env cfg recon_id (pagedResultsCookie data) (page + 1)
       (print (FetchedPage (page + 1) (length (get_result data))) s1) batches s' \<Longrightarrow>
     fetches env cfg recon_id cookie page s (get_result data # batches) s'"

definition page_request :: "config \<Rightarrow> string \<Rightarrow> request \<Rightarrow> bool" where
  "page_request cfg recon_id q =
     (meth q = GET
      \<and> url q = ''https://'' @ tenant_host cfg @ ''/openidm/recon/assoc/'' @ recon_id @ ''/entry''
      \<and> (''_pageSize'', ''500'') \<in> set (params q)
      \<and> (''_queryFilter'', ''situation eq '' @ [CHR 0x22] @ ''FOUND_ALREADY_LINKED'' @ [CHR 0x22])
            \<in> set (params q)
      \<and> params q = page_query (map_of (params q) ''_pagedResultsCookie''))"

fun is_page_line :: "event \<Rightarrow> bool" where
  "is_page_line (FetchedPage _ _) = True"
| "is_page_line TokenAcquired = True"
| "is_page_line TokenExpired = True"
| "is_page_line _ = False"


definition well_formed :: "jobj \<Rightarrow> bool" where
  "well_formed link =
     (link ''_id'' \<noteq> None \<and> link ''_rev'' \<noteq> None \<and> link ''firstId'' \<noteq> None
      \<and> link ''secondId'' \<noteq> None)"

text \<open>
  The lines printed by the loop over the entries and by the summary, as opposed to
  those printed while the run is located and its entries are fetched.
\<close>

fun setup_event :: "event \<Rightarrow> bool" where
  "setup_event (EntryLine _ _ _ _) = False"
| "setup_event (WarnNoLink _) = False"
| "setup_event (FoundLink _ _ _) = False"
| "setup_event (WouldDelete _) = False"
| "setup_event (DeletedLink _) = False"
| "setup_event (ErrorDeleting _ _) = False"
| "setup_event (SummaryLines _) = False"
| "setup_event _ = True"

fun is_warning :: "event \<Rightarrow> bool" where
  "is_warning (WarnNoLink _) = True"
| "is_warning _ = False"

definition no_delete :: "request \<Rightarrow> bool" where
  "no_delete q = (meth q \<noteq> DELETE)"

text \<open>The two lines a dry run prints for a resolved link.\<close>

definition dry_lines :: "jobj \<Rightarrow> event list" where
  "dry_lines link =
     (case (link ''_id'', link ''firstId'', link ''secondId'') of
        (Some i, Some f, Some sd) \<Rightarrow> [FoundLink i f sd, WouldDelete i]
      | _ \<Rightarrow> [])"

text \<open>
  The lines a dry run prints for a list of resolved links, and the \<open>KeyError\<close> it
  raises at the first record that lacks one of the members it reads.
\<close>

fun list_links :: "jobj list \<Rightarrow> event list \<times> error option" where
  "list_links [] = ([], None)"
| "list_links (l # ls) =
     (case l ''_id'' of
        None \<Rightarrow> ([], Some (KeyError ''_id''))
      | Some i \<Rightarrow>
     (case l ''_rev'' of
        None \<Rightarrow> ([], Some (KeyError ''_rev''))
      | Some rv \<Rightarrow>
     (case l ''firstId'' of
        None \<Rightarrow> ([], Some (KeyError ''firstId''))
      | Some f \<Rightarrow>
     (case l ''secondId'' of
        None \<Rightarrow> ([], Some (KeyError ''secondId''))
      | Some sd \<Rightarrow>
          (case list_links ls of
             (evs, e) \<Rightarrow> ([FoundLink i f sd, WouldDelete i] @ evs, e))))))"

text \<open>
  The dry run as the specification describes it: for each entry in turn, print its line
  and resolve its links with \<open>find_link\<close>; with no link, warn and count the entry as
  not found; otherwise list the links.  Nothing but \<open>find_link\<close> sends a request.
\<close>

fun resolve_only ::
  "'w env \<Rightarrow> config \<Rightarrow> nat \<Rightarrow> nat \<Rightarrow> jobj list \<Rightarrow> counters \<Rightarrow> 'w state
     \<Rightarrow> (error + counters) \<times> 'w state" where
  "resolve_only env cfg n i [] c s = (Inr c, s)"
| "resolve_only env cfg n i (entry # rest) c s =
     (case find_link env cfg (entry ''sourceObjectId'') (entry ''targetObjectId'')
             (print (EntryLine i n (entry ''sourceObjectId'') (entry ''targetObjectId'')) s) of
        (Inl e, s1) \<Rightarrow> (Inl e, s1)
      | (Inr links, s1) \<Rightarrow>
          if links = [] then
            resolve_only env cfg n (i + 1) rest (c\<lparr>not_found := not_found c + 1\<rparr>)
              (print (WarnNoLink (mapping_name cfg)) s1)
          else
            (case list_links links of
               (evs, Some e) \<Rightarrow> (Inl e, s1\<lparr>out := out s1 @ evs\<rparr>)
             | (evs, None) \<Rightarrow>
                 resolve_only env cfg n (i + 1) rest c (s1\<lparr>out := out s1 @ evs\<rparr>)))"

text \<open>A token request, or a query of the link collection.\<close>

definition is_link_query :: "config \<Rightarrow> request \<Rightarrow> bool" where
  "is_link_query cfg q =
     (meth q = POST
      \<or> (meth q = GET \<and> url q = ''https://'' @ tenant_host cfg @ ''/openidm/repo/link''))"

text \<open>
  The link records the service has returned so far: the \<open>result\<close> members of the
  replies to \<open>GET /repo/link\<close> that \<open>raise_for_status\<close> let through.
\<close>

fun reply_links :: "config \<Rightarrow> request \<times> reply \<Rightarrow> jobj list" where
  "reply_links cfg (q, Reply code b) =
     (if meth q = GET \<and> url q = BASE_URL cfg @ ''/repo/link'' \<and> \<not> raise_for_status code
      then get_result b else [])"
| "reply_links cfg (q, NoReply) = []"

definition returned_links :: "config \<Rightarrow> (request \<times> reply) list \<Rightarrow> jobj list" where
  "returned_links cfg tr = concat (map (reply_links cfg) tr)"

text \<open>A request addresses the record \<open>l\<close>: its URL ends in the record's \<open>_id\<close> and
  its \<open>If-Match\<close> header is the record's \<open>_rev\<close>.\<close>

definition delete_target :: "config \<Rightarrow> jobj \<Rightarrow> request \<Rightarrow> bool" where
  "delete_target cfg l q =
     (case l ''_id'' of
        None \<Rightarrow> False
      | Some i \<Rightarrow> url q = BASE_URL cfg @ ''/repo/link/'' @ i
                  \<and> if_match q = (if falsy (l ''_rev'') then None else l ''_rev''))"

definition justified :: "config \<Rightarrow> (request \<times> reply) list \<Rightarrow> request \<Rightarrow> bool" where
  "justified cfg tr q =
     (\<exists>l \<in> set (returned_links cfg tr).
        l ''linkType'' = Some (mapping_name cfg) \<and> delete_target cfg l q)"

definition deletes_justified :: "config \<Rightarrow> (request \<times> reply) list \<Rightarrow> bool" where
  "deletes_justified cfg tr = (\<forall>x \<in> set tr. meth (fst x) = DELETE \<longrightarrow> justified cfg tr (fst x))"

section \<open>Concrete runs\<close>

text \<open>
  A service that answers from a fixed list of replies, a service that answers by the
  request it is sent, and the records, configurations and reply lists on which the
  model is run.
\<close>

definition scripted :: "(reply list) env" where
  "scripted = \<lparr>http = (\<lambda>w q. case w of [] \<Rightarrow> (NoReply, []) | r # rs \<Rightarrow> (r, rs)),
                set_swap = (\<lambda>a b. False)\<rparr>"

definition no_members :: body where
  "no_members = \<lparr>reconciliations = None, result = None, pagedResultsCookie = None,
                  access_token = None\<rparr>"

definition token_reply :: reply where
  "token_reply = Reply 200 (no_members\<lparr>access_token := Some ''tok''\<rparr>)"

definition results_reply :: "jobj list \<Rightarrow> reply" where
  "results_reply xs = Reply 200 (no_members\<lparr>result := Some xs\<rparr>)"

definition run_out :: "'w env \<Rightarrow> config \<Rightarrow> 'w \<Rightarrow> event list" where
  "run_out env cfg w = (case main env cfg w of None \<Rightarrow> [] | Some (r, s) \<Rightarrow> out s)"

definition run_trace :: "'w env \<Rightarrow> config \<Rightarrow> 'w \<Rightarrow> (request \<times> reply) list" where
  "run_trace env cfg w = (case main env cfg w of None \<Rightarrow> [] | Some (r, s) \<Rightarrow> trace s)"

definition run_result :: "'w env \<Rightarrow> config \<Rightarrow> 'w \<Rightarrow> (error + outcome) option" where
  "run_result env cfg w = map_option fst (main env cfg w)"

definition demo_cfg :: "int \<Rightarrow> config" where
  "demo_cfg n = \<lparr>tenant_host = ''idm.example'', mapping_name = ''m'', sample_size = n\<rparr>"

definition recon_m :: recon_run where
  "recon_m = \<lparr>members = [''_id'' \<mapsto> ''r1'', ''mapping'' \<mapsto> ''m'', ''state'' \<mapsto> ''SUCCESS'',
                  ''started'' \<mapsto> ''2024-05-01T10:00:00Z''],
     situationSummary = Some [''FOUND_ALREADY_LINKED'' \<mapsto> 1]\<rparr>"

definition entry_a :: jobj where
  "entry_a = [''sourceObjectId'' \<mapsto> ''a'']"

definition entry_b :: jobj where
  "entry_b = [''sourceObjectId'' \<mapsto> ''b'', ''targetObjectId'' \<mapsto> []]"

definition link_a :: jobj where
  "link_a = [''_id'' \<mapsto> ''L1'', ''_rev'' \<mapsto> ''0'', ''firstId'' \<mapsto> ''a'', ''secondId'' \<mapsto> ''x'',
             ''linkType'' \<mapsto> ''m'']"

definition dry_script :: "reply list" where
  "dry_script = [token_reply,
                 Reply 200 (no_members\<lparr>reconciliations := Some [recon_m]\<rparr>),
                 results_reply [entry_a],
                 results_reply [link_a],
                 results_reply []]"

definition links_script :: "reply list" where
  "links_script = [token_reply, results_reply [link_a], results_reply [], results_reply [],
                   results_reply []]"

definition entry_blank :: jobj where
  "entry_blank = [''targetObjectId'' \<mapsto> []]"





definition link_other :: jobj where
  "link_other = [''_id'' \<mapsto> ''L2'', ''_rev'' \<mapsto> ''4'', ''firstId'' \<mapsto> ''a'', ''secondId'' \<mapsto> ''y'',
                 ''linkType'' \<mapsto> ''other'']"

definition link_back :: jobj where
  "link_back = [''_id'' \<mapsto> ''L3'', ''_rev'' \<mapsto> ''1'', ''firstId'' \<mapsto> ''z'', ''secondId'' \<mapsto> ''a'',
               ''linkType'' \<mapsto> ''m'']"

definition link_b :: jobj where
  "link_b = [''_id'' \<mapsto> ''L4'', ''_rev'' \<mapsto> ''2'', ''firstId'' \<mapsto> ''b'', ''secondId'' \<mapsto> ''w'',
             ''linkType'' \<mapsto> ''m'']"

definition first_body :: body where
  "first_body = no_members\<lparr>result := Some [link_a, link_other]\<rparr>"

definition second_body :: body where
  "second_body = no_members\<lparr>result := Some [link_back]\<rparr>"

definition both_fields_script :: "reply list" where
  "both_fields_script = [token_reply, Reply 200 first_body, Reply 200 second_body]"

definition entry_c :: jobj where
  "entry_c = [''sourceObjectId'' \<mapsto> ''c'', ''targetObjectId'' \<mapsto> ''d'']"

definition page_one :: body where
  "page_one = no_members\<lparr>result := Some [entry_a, entry_b], pagedResultsCookie := Some ''c1''\<rparr>"

definition page_two :: body where
  "page_two = no_members\<lparr>result := Some [entry_c]\<rparr>"

text \<open>
  A service that reads the requests it answers.  Its state is the list of link records
  it stores.  A \<open>GET\<close> of \<open>/repo/link\<close> returns the stored records whose \<open>firstId\<close>
  or \<open>secondId\<close> the \<open>_queryFilter\<close> parameter asks for, and no record for any other
  parameter list; a \<open>GET\<close> of the entries of the run \<open>r1\<close> returns the first page
  when no continuation token is sent, the second page for the token \<open>c1\<close> of the first
  page, and status 400 for any other parameter list.
\<close>

definition asks_for :: "(string \<times> string) list \<Rightarrow> jobj \<Rightarrow> bool" where
  "asks_for ps l =
     ((case l ''firstId'' of
         None \<Rightarrow> False
       | Some v \<Rightarrow> ps = [(''_queryFilter'', ''firstId eq '' @ [CHR 0x22] @ v @ [CHR 0x22])])
      \<or> (case l ''secondId'' of
            None \<Rightarrow> False
          | Some v \<Rightarrow> ps = [(''_queryFilter'', ''secondId eq '' @ [CHR 0x22] @ v @ [CHR 0x22])]))"

definition tenant :: "(jobj list) env" where
  "tenant =
     \<lparr>http = (\<lambda>w q.
        if meth q = POST then (token_reply, w)
        else if meth q = GET \<and> url q = ''https://idm.example/openidm/repo/link''
          then (results_reply (filter (asks_for (params q)) w), w)
        else if meth q = GET \<and> url q = ''https://idm.example/openidm/recon/assoc/r1/entry''
          then (if params q = [(''_queryFilter'',
                                 ''situation eq '' @ [CHR 0x22] @ ''FOUND_ALREADY_LINKED'' @ [CHR 0x22]),
                               (''_pageSize'', ''500'')]
                  then Reply 200 page_one
                else if params q = [(''_queryFilter'',
                                 ''situation eq '' @ [CHR 0x22] @ ''FOUND_ALREADY_LINKED'' @ [CHR 0x22]),
                               (''_pageSize'', ''500''), (''_pagedResultsCookie'', ''c1'')]
                  then Reply 200 page_two
                else Reply 400 no_members, w)
        else (Reply 404 no_members, w)),
      set_swap = (\<lambda>a b. False)\<rparr>"

definition stored_links :: "jobj list" where
  "stored_links = [link_a, link_other, link_back, link_b]"



definition cached_state :: "reply list \<Rightarrow> (reply list) state" where
  "cached_state w = \<lparr>server = w, token = Some ''tok1'', trace = [], out = []\<rparr>"

definition entry_e :: jobj where
  "entry_e = [''targetObjectId'' \<mapsto> ''e'']"

definition link_e :: jobj where
  "link_e = [''_id'' \<mapsto> ''L5'', ''_rev'' \<mapsto> ''3'', ''firstId'' \<mapsto> ''v'', ''secondId'' \<mapsto> ''e'',
             ''linkType'' \<mapsto> ''m'']"

definition recon_three :: recon_run where
  "recon_three = \<lparr>members = [''_id'' \<mapsto> ''r1'', ''mapping'' \<mapsto> ''m'', ''state'' \<mapsto> ''SUCCESS'',
                  ''started'' \<mapsto> ''2024-05-01T10:00:00Z''],
     situationSummary = Some [''FOUND_ALREADY_LINKED'' \<mapsto> 3]\<rparr>"

text \<open>
  The end-to-end scenario of the specification: the summary counts three flagged
  entries, two pages return them (two, then one), each entry resolves to one link of the
  mapping, and the second delete is rejected with status 412.
\<close>

definition failing_delete_script :: "reply list" where
  "failing_delete_script =
     [token_reply,
      Reply 200 (no_members\<lparr>reconciliations := Some [recon_three]\<rparr>),
      Reply 200 page_one,
      Reply 200 (no_members\<lparr>result := Some [entry_e]\<rparr>),
      results_reply [link_a], results_reply [], Reply 200 no_members,
      results_reply [link_b], results_reply [], Reply 412 no_members,
      results_reply [], results_reply [link_e], Reply 200 no_members]"

text \<open>
  One flagged entry with source id \<open>a\<close>; the service knows three links that have \<open>a\<close>
  as an endpoint, one of them of another mapping.
\<close>

definition cross_script :: "reply list" where
  "cross_script =
     [token_reply,
      Reply 200 (no_members\<lparr>reconciliations := Some [recon_m]\<rparr>),
      results_reply [entry_a],
      Reply 200 first_body, Reply 200 second_body,
      Reply 200 no_members, Reply 200 no_members]"

section \<open>Frames: what a call adds to the trace and to the output\<close>

lemma extends_refl: "extends Q E s s"
  by (simp add: extends_def)

lemma extends_trans: "extends Q E s s1 \<Longrightarrow> extends Q E s1 s2 \<Longrightarrow> extends Q E s s2"
proof -
  assume "extends Q E s s1" and "extends Q E s1 s2"
  then obtain tr evs tr' evs' where
    a: "trace s1 = trace s @ tr" "out s1 = out s @ evs"
       "\<forall>x \<in> set tr. Q (fst x)" "\<forall>e \<in> set evs. E e"
    and b: "trace s2 = trace s1 @ tr'" "out s2 = out s1 @ evs'"
       "\<forall>x \<in> set tr'. Q (fst x)" "\<forall>e \<in> set evs'. E e"
    unfolding extends_def by blast
  have "trace s2 = trace s @ (tr @ tr')" "out s2 = out s @ (evs @ evs')"
    "\<forall>x \<in> set (tr @ tr'). Q (fst x)" "\<forall>e \<in> set (evs @ evs'). E e"
    using a b by auto
  then show ?thesis unfolding extends_def by blast
qed

lemma extends_mono:
  "extends Q E s s' \<Longrightarrow> (\<And>q. Q q \<Longrightarrow> Q' q) \<Longrightarrow> (\<And>e. E e \<Longrightarrow> E' e) \<Longrightarrow> extends Q' E' s s'"
  unfolding extends_def by blast

lemma extends_print: "E e \<Longrightarrow> extends Q E s (print e s)"
  by (simp add: extends_def print_def)

lemma extends_send: "send env q s = (rp, s') \<Longrightarrow> Q q \<Longrightarrow> extends Q E s s'"
  by (auto simp: send_def extends_def split: prod.splits)

lemma refresh_extends:
  "refresh env cfg s = (r, s') \<Longrightarrow> extends (\<lambda>q. meth q = POST) quiet s s'"
proof -
  assume a: "refresh env cfg s = (r, s')"
  obtain rp s1 where s1: "send env (token_request cfg) s = (rp, s1)" by force
  have e1: "extends (\<lambda>q. meth q = POST) quiet s s1"
    using s1 by (rule extends_send) (simp add: token_request_def)
  have "extends (\<lambda>q. meth q = POST) quiet s1 s'"
    using a s1
    by (auto simp: refresh_def extends_refl extends_def print_def quiet_def
        split: reply.splits if_splits option.splits)
  with e1 show ?thesis by (rule extends_trans)
qed

lemma get_token_extends:
  "get_token env cfg s = (r, s') \<Longrightarrow> extends (\<lambda>q. meth q = POST) quiet s s'"
  by (auto simp: get_token_def extends_refl split: if_splits prod.splits sum.splits
      dest: refresh_extends)

lemma do_request_attempt_extends:
  assumes "do_request_attempt env cfg m path ps rv attempt s = (r, s')"
  shows "extends (issued cfg m path ps rv) quiet s s'"
proof -
  let ?Q = "issued cfg m path ps rv"
  have post: "\<And>a b. extends (\<lambda>q. meth q = POST) quiet a b \<Longrightarrow> extends ?Q quiet a b"
    by (erule extends_mono) (simp_all add: issued_def)
  obtain r1 s1 where g: "get_token env cfg s = (r1, s1)" by force
  have e1: "extends ?Q quiet s s1" using g by (intro post get_token_extends)
  show ?thesis
  proof (cases r1)
    case (Inl e)
    with assms g e1 show ?thesis by (simp add: do_request_attempt_def)
  next
    case (Inr tok)
    obtain rp s2 where sd: "send env (mk_request cfg m path ps rv tok) s1 = (rp, s2)" by force
    have e2: "extends ?Q quiet s s2"
      using e1 extends_send [OF sd, of ?Q quiet] by (auto simp: issued_def intro: extends_trans)
    show ?thesis
    proof (cases rp)
      case NoReply
      with assms g Inr sd e2 show ?thesis by (simp add: do_request_attempt_def)
    next
      case (Reply code data)
      show ?thesis
      proof (cases "code = 401 \<and> attempt = 0")
        case True
        obtain r3 s3 where rf: "refresh env cfg (print TokenExpired s2) = (r3, s3)" by force
        have "extends ?Q quiet s2 (print TokenExpired s2)"
          by (rule extends_print) (simp add: quiet_def)
        moreover have "extends ?Q quiet (print TokenExpired s2) s3"
          using rf by (intro post refresh_extends)
        ultimately have "extends ?Q quiet s s3" using e2 by (blast intro: extends_trans)
        moreover have "s' = s3"
          using assms g Inr sd Reply True rf
          by (auto simp: do_request_attempt_def split: sum.splits)
        ultimately show ?thesis by simp
      next
        case False
        then have "s' = s2"
          using assms g Inr sd Reply
          by (auto simp: do_request_attempt_def split: if_splits)
        with e2 show ?thesis by simp
      qed
    qed
  qed
qed

lemma do_request_loop_extends:
  "do_request_loop env cfg m path ps rv as s = (r, s') \<Longrightarrow> extends (issued cfg m path ps rv) quiet s s'"
proof (induction as arbitrary: s)
  case Nil
  then show ?case by (simp add: extends_refl)
next
  case (Cons a as)
  obtain f s1 where at: "do_request_attempt env cfg m path ps rv a s = (f, s1)" by force
  note e1 = do_request_attempt_extends [OF at]
  show ?case
  proof (cases f)
    case Continue
    with Cons.prems at have "do_request_loop env cfg m path ps rv as s1 = (r, s')" by simp
    from Cons.IH [OF this] e1 show ?thesis by (blast intro: extends_trans)
  next
    case (Return d)
    with Cons.prems at e1 show ?thesis by simp
  next
    case (Raise e)
    with Cons.prems at e1 show ?thesis by simp
  qed
qed

lemma do_request_extends:
  "do_request env cfg m path ps rv s = (r, s') \<Longrightarrow> extends (issued cfg m path ps rv) quiet s s'"
  unfolding do_request_def by (rule do_request_loop_extends)

lemma api_get_extends:
  assumes "api_get env cfg path ps s = (r, s')"
  shows "extends (\<lambda>q. meth q \<noteq> DELETE) quiet s s'"
proof -
  have "extends (issued cfg GET path ps None) quiet s s'"
    using assms unfolding api_get_def by (rule do_request_extends)
  then show ?thesis
    by (rule extends_mono) (auto simp: issued_def mk_request_def)
qed

lemma query_fields_extends:
  "query_fields env cfg sid flds cands s = (r, s') \<Longrightarrow> extends (\<lambda>q. meth q \<noteq> DELETE) quiet s s'"
proof (induction flds arbitrary: cands s)
  case Nil
  then show ?case by (simp add: extends_refl)
next
  case (Cons f flds)
  obtain r1 s1 where g: "api_get env cfg ''/repo/link'' (link_filter f sid) s = (r1, s1)"
    by force
  note e1 = api_get_extends [OF g]
  show ?case
  proof (cases r1)
    case (Inl e)
    with Cons.prems g e1 show ?thesis by simp
  next
    case (Inr d)
    show ?thesis
    proof (cases d)
      case None
      with Cons.prems g e1 Inr show ?thesis by simp
    next
      case (Some data)
      with Cons.prems g Inr
      have "query_fields env cfg sid flds (cands @ get_result data) s1 = (r, s')" by simp
      from Cons.IH [OF this] e1 show ?thesis by (blast intro: extends_trans)
    qed
  qed
qed

lemma query_ids_extends:
  "query_ids env cfg ids cands s = (r, s') \<Longrightarrow> extends (\<lambda>q. meth q \<noteq> DELETE) quiet s s'"
proof (induction ids arbitrary: cands s)
  case Nil
  then show ?case by (simp add: extends_refl)
next
  case (Cons i ids)
  obtain r1 s1 where g: "query_fields env cfg i [''firstId'', ''secondId''] cands s = (r1, s1)"
    by force
  note e1 = query_fields_extends [OF g]
  show ?case
  proof (cases r1)
    case (Inl e)
    with Cons.prems g e1 show ?thesis by simp
  next
    case (Inr c')
    with Cons.prems g have "query_ids env cfg ids c' s1 = (r, s')" by simp
    from Cons.IH [OF this] e1 show ?thesis by (blast intro: extends_trans)
  qed
qed

lemma find_link_extends:
  assumes "find_link env cfg a b s = (r, s')"
  shows "extends (\<lambda>q. meth q \<noteq> DELETE) quiet s s'"
proof -
  obtain r1 s1 where g: "query_ids env cfg (search_ids env a b) [] s = (r1, s1)" by force
  have "s' = s1"
    using assms g by (auto simp: find_link_def split: sum.splits)
  with query_ids_extends [OF g] show ?thesis by simp
qed

lemma quiet_link_event: "quiet e \<Longrightarrow> link_event e"
  by (auto simp: quiet_def)

lemma api_delete_extends:
  assumes "api_delete env cfg path rv s = (r, s')"
  shows "extends (issued cfg DELETE path [] (Some rv)) quiet s s'"
  using assms unfolding api_delete_def by (rule do_request_extends)

lemma process_link_extends:
  assumes "process_link env cfg dry link c s = (r, s')"
  shows "extends (\<lambda>q. True) link_event s s'"
proof (cases "link ''_id'' = None \<or> link ''_rev'' = None \<or> link ''firstId'' = None
    \<or> link ''secondId'' = None")
  case True
  then have "s' = s"
    using assms by (auto simp: process_link_def split: option.splits)
  then show ?thesis by (simp add: extends_refl)
next
  case False
  then obtain i rv f sd where k: "link ''_id'' = Some i" "link ''_rev'' = Some rv"
    "link ''firstId'' = Some f" "link ''secondId'' = Some sd" by auto
  let ?s1 = "print (FoundLink i f sd) s"
  have e1: "extends (\<lambda>q. True) link_event s ?s1" by (rule extends_print) simp
  show ?thesis
  proof (cases dry)
    case True
    then have "s' = print (WouldDelete i) ?s1"
      using assms k by (simp add: process_link_def)
    moreover have "extends (\<lambda>q. True) link_event ?s1 (print (WouldDelete i) ?s1)"
      by (rule extends_print) simp
    ultimately show ?thesis using e1 by (auto intro: extends_trans)
  next
    case False
    obtain r2 s2 where d: "api_delete env cfg (''/repo/link/'' @ i) rv ?s1 = (r2, s2)" by force
    have e2: "extends (\<lambda>q. True) link_event ?s1 s2"
      using api_delete_extends [OF d] by (rule extends_mono) (simp_all add: quiet_link_event)
    have "s' = s2 \<or> s' = print (DeletedLink i) s2 \<or> (\<exists>e. s' = print (ErrorDeleting i e) s2)"
      using assms k False d
      by (cases r2) (auto simp: process_link_def split: if_splits)
    moreover have "extends (\<lambda>q. True) link_event s2 (print (DeletedLink i) s2)"
      by (rule extends_print) simp
    moreover have "\<And>e. extends (\<lambda>q. True) link_event s2 (print (ErrorDeleting i e) s2)"
      by (rule extends_print) simp
    ultimately have "extends (\<lambda>q. True) link_event s2 s'"
      by (auto intro: extends_refl)
    with e1 e2 show ?thesis by (blast intro: extends_trans)
  qed
qed

lemma process_links_extends:
  "process_links env cfg dry links c s = (r, s') \<Longrightarrow> extends (\<lambda>q. True) link_event s s'"
proof (induction links arbitrary: c s)
  case Nil
  then show ?case by (simp add: extends_refl)
next
  case (Cons l links)
  obtain r1 s1 where g: "process_link env cfg dry l c s = (r1, s1)" by force
  note e1 = process_link_extends [OF g]
  show ?case
  proof (cases r1)
    case (Inl e)
    with Cons.prems g e1 show ?thesis by simp
  next
    case (Inr c1)
    with Cons.prems g have "process_links env cfg dry links c1 s1 = (r, s')" by simp
    from Cons.IH [OF this] e1 show ?thesis by (blast intro: extends_trans)
  qed
qed

lemma extends_entry_lines:
  assumes "extends Q E s s'" and "\<And>e. E e \<Longrightarrow> \<not> is_entry_line e"
  shows "filter is_entry_line (out s') = filter is_entry_line (out s)"
proof -
  from assms(1) obtain evs where "out s' = out s @ evs" "\<forall>e \<in> set evs. E e"
    unfolding extends_def by blast
  moreover then have "filter is_entry_line evs = []"
    using assms(2) by (auto simp: filter_empty_conv)
  ultimately show ?thesis by simp
qed

lemma link_event_not_entry_line: "link_event e \<Longrightarrow> \<not> is_entry_line e"
  by (cases e) simp_all

lemma process_entry_entry_lines:
  assumes "process_entry env cfg dry n i entry c s = (r, s')"
  shows "filter is_entry_line (out s') = filter is_entry_line (out s) @ [entry_line n (i, entry)]"
proof -
  let ?s1 = "print (EntryLine i n (entry ''sourceObjectId'') (entry ''targetObjectId'')) s"
  have el: "is_entry_line (entry_line n (i, entry))" by (simp add: entry_line_def)
  have "out ?s1 = out s @ [entry_line n (i, entry)]"
    by (simp add: print_def entry_line_def)
  then have o1: "filter is_entry_line (out ?s1) = filter is_entry_line (out s) @ [entry_line n (i, entry)]"
    using el by simp
  obtain r2 s2 where f: "find_link env cfg (entry ''sourceObjectId'') (entry ''targetObjectId'') ?s1
      = (r2, s2)" by force
  have o2: "filter is_entry_line (out s2) = filter is_entry_line (out ?s1)"
    using find_link_extends [OF f]
    by (rule extends_entry_lines) (auto simp: quiet_def)
  show ?thesis
  proof (cases r2)
    case (Inl e)
    with assms f have "s' = s2" by (simp add: process_entry_def Let_def)
    with o1 o2 show ?thesis by (simp only:)
  next
    case (Inr links)
    show ?thesis
    proof (cases "links = []")
      case True
      with assms f Inr have "s' = print (WarnNoLink (mapping_name cfg)) s2"
        by (simp add: process_entry_def Let_def)
      then have "filter is_entry_line (out s') = filter is_entry_line (out s2)"
        by (simp add: print_def)
      with o1 o2 show ?thesis by (simp only:)
    next
      case False
      with assms f Inr have "process_links env cfg dry links c s2 = (r, s')"
        by (simp add: process_entry_def Let_def)
      from process_links_extends [OF this]
      have "filter is_entry_line (out s') = filter is_entry_line (out s2)"
        by (rule extends_entry_lines) (rule link_event_not_entry_line)
      with o1 o2 show ?thesis by (simp only:)
    qed
  qed
qed

lemma process_entries_entry_lines:
  "process_entries env cfg dry n i es c s = (Inr c', s') \<Longrightarrow>
   filter is_entry_line (out s') =
     filter is_entry_line (out s) @ map (entry_line n) (zip [i ..< i + length es] es)"
proof (induction es arbitrary: i c s)
  case Nil
  then show ?case by simp
next
  case (Cons e es)
  obtain r1 s1 where g: "process_entry env cfg dry n i e c s = (r1, s1)" by force
  note o1 = process_entry_entry_lines [OF g]
  from Cons.prems g obtain c1 where r1: "r1 = Inr c1"
    and rest: "process_entries env cfg dry n (i + 1) es c1 s1 = (Inr c', s')"
    by (cases r1) auto
  have "[i ..< i + length (e # es)] = i # [i + 1 ..< (i + 1) + length es]"
    using upt_conv_Cons [of i "i + length (e # es)"] by simp
  with Cons.IH [OF rest] o1 show ?case by simp
qed

section \<open>The sample size\<close>

lemma to_process_take: "0 < n \<Longrightarrow> to_process n es = take (nat n) es"
  by (simp add: to_process_def)

lemma announce_mode_entry_lines:
  "filter is_entry_line (out (announce_mode n es s)) = filter is_entry_line (out s)"
  by (simp add: announce_mode_def print_def)

lemma delete_step_entry_lines:
  assumes "delete_step env cfg entries s = (Inr oc, s')"
  shows "filter is_entry_line (out s') =
         filter is_entry_line (out s) @
           map (entry_line (length (to_process (sample_size cfg) entries)))
             (zip [1 ..< 1 + length (to_process (sample_size cfg) entries)]
                  (to_process (sample_size cfg) entries))"
proof -
  let ?todo = "to_process (sample_size cfg) entries"
  let ?s1 = "announce_mode (sample_size cfg) entries s"
  obtain r2 s2 where p: "process_entries env cfg (sample_size cfg = 0) (length ?todo) 1 ?todo
      zero_counters ?s1 = (r2, s2)" by force
  from assms p obtain c where r2: "r2 = Inr c"
    by (cases r2) (auto simp: delete_step_def Let_def)
  with assms p have "out s' = out s2 @ [SummaryLines
       \<lparr>total_entries = length entries,
          sampled = (if sample_size cfg > 0 then Some (length ?todo) else None),
          links_deleted = deleted c, links_not_found = not_found c, failures = failed c,
          dry_run_note = (sample_size cfg = 0)\<rparr>]"
    by (auto simp: delete_step_def Let_def print_def)
  then have "filter is_entry_line (out s') = filter is_entry_line (out s2)" by simp
  also have "\<dots> = filter is_entry_line (out ?s1) @
      map (entry_line (length ?todo)) (zip [1 ..< 1 + length ?todo] ?todo)"
    using p r2 process_entries_entry_lines by blast
  finally show ?thesis by (simp only: announce_mode_entry_lines)
qed

lemma delete_step_summary:
  assumes "delete_step env cfg entries s = (Inr oc, s')"
  shows "\<exists>sm. oc = Finished sm \<and> total_entries sm = length entries \<and>
           sampled sm = (if sample_size cfg > 0
                         then Some (length (to_process (sample_size cfg) entries)) else None) \<and>
           dry_run_note sm = (sample_size cfg = 0)"
  using assms by (auto simp: delete_step_def Let_def split: prod.splits sum.splits)

text \<open>
  Claim C4.  For a sample size \<open>N > 0\<close> the entries the orchestrator goes through are the
  first \<open>N\<close> fetched entries, \<open>min N (len entries)\<close> many; a run that reaches its
  summary has printed one entry line for each of them, in fetch order, and reports that
  number as "Sampled".
\<close>

theorem sample_processes_first_n:
  assumes "0 < sample_size cfg"
  shows "to_process (sample_size cfg) entries = take (nat (sample_size cfg)) entries
       \<and> length (to_process (sample_size cfg) entries) = min (nat (sample_size cfg)) (length entries)
       \<and> (\<forall>oc s'. delete_step env cfg entries s = (Inr oc, s') \<longrightarrow>
            filter is_entry_line (out s') =
              filter is_entry_line (out s) @
                map (entry_line (min (nat (sample_size cfg)) (length entries)))
                  (zip [1 ..< 1 + min (nat (sample_size cfg)) (length entries)]
                       (take (nat (sample_size cfg)) entries))
            \<and> (\<exists>sm. oc = Finished sm \<and> total_entries sm = length entries
                   \<and> sampled sm = Some (min (nat (sample_size cfg)) (length entries))))"
proof -
  have t: "to_process (sample_size cfg) entries = take (nat (sample_size cfg)) entries"
    using assms by (rule to_process_take)
  have l: "length (to_process (sample_size cfg) entries) = min (nat (sample_size cfg)) (length entries)"
    by (simp add: t min.commute)
  have "filter is_entry_line (out s') =
              filter is_entry_line (out s) @
                map (entry_line (min (nat (sample_size cfg)) (length entries)))
                  (zip [1 ..< 1 + min (nat (sample_size cfg)) (length entries)]
                       (take (nat (sample_size cfg)) entries))
            \<and> (\<exists>sm. oc = Finished sm \<and> total_entries sm = length entries
                   \<and> sampled sm = Some (min (nat (sample_size cfg)) (length entries)))"
    if d: "delete_step env cfg entries s = (Inr oc, s')" for oc s'
    using delete_step_entry_lines [OF d] delete_step_summary [OF d] assms
    unfolding l unfolding t by auto
  with t l show ?thesis by blast
qed

theorem sample_processes_first_n_witness:
  "0 < sample_size (demo_cfg 1)
   \<and> fst (delete_step scripted (demo_cfg 1) [entry_a, entry_b] (init_state links_script))
       = Inr (Finished \<lparr>total_entries = 2, sampled = Some 1, links_deleted = 1,
                         links_not_found = 0, failures = 0, dry_run_note = False\<rparr>)
   \<and> filter is_entry_line
       (out (snd (delete_step scripted (demo_cfg 1) [entry_a, entry_b] (init_state links_script))))
       = [EntryLine 1 1 (Some ''a'') None]"
proof -
  let ?run = "delete_step scripted (demo_cfg 1) [entry_a, entry_b] (init_state links_script)"
  have h: "0 < sample_size (demo_cfg 1)" by (simp add: demo_cfg_def)
  have r: "fst ?run = Inr (Finished \<lparr>total_entries = 2, sampled = Some 1, links_deleted = 1,
                         links_not_found = 0, failures = 0, dry_run_note = False\<rparr>)"
    by code_simp
  then have d: "?run = (Inr (Finished \<lparr>total_entries = 2, sampled = Some 1, links_deleted = 1,
                         links_not_found = 0, failures = 0, dry_run_note = False\<rparr>), snd ?run)"
    by (metis prod.collapse)
  have "filter is_entry_line (out (snd ?run)) = [EntryLine 1 1 (Some ''a'') None]"
    using sample_processes_first_n [OF h, of "[entry_a, entry_b]" scripted "init_state links_script"] d
    by (simp add: demo_cfg_def init_state_def entry_line_def entry_a_def)
  with h r show ?thesis by blast
qed

section \<open>Entries without ids\<close>

lemma search_ids_none: "falsy a \<Longrightarrow> falsy b \<Longrightarrow> search_ids env a b = []"
  by (auto simp: falsy_def search_ids_def truthy_ids_def)

lemma find_link_none:
  "falsy a \<Longrightarrow> falsy b \<Longrightarrow> find_link env cfg a b s = (Inr [], s)"
  by (simp add: find_link_def search_ids_none)

text \<open>
  Claim C10.  For an entry whose \<open>sourceObjectId\<close> and \<open>targetObjectId\<close> are both
  absent or empty, \<open>find_link\<close> sends nothing (the state, and with it the trace, is
  unchanged) and returns the empty list; the loop body prints the entry line and the
  warning, adds one to \<open>not_found\<close>, raises nothing, and the loop goes on with the
  next entry.
\<close>

theorem no_ids_counts_not_found:
  assumes "falsy (entry ''sourceObjectId'')" and "falsy (entry ''targetObjectId'')"
  shows "find_link env cfg (entry ''sourceObjectId'') (entry ''targetObjectId'') s = (Inr [], s)
       \<and> process_entry env cfg dry_run n i entry c s =
           (Inr (c\<lparr>not_found := not_found c + 1\<rparr>),
            print (WarnNoLink (mapping_name cfg))
              (print (EntryLine i n (entry ''sourceObjectId'') (entry ''targetObjectId'')) s))
       \<and> trace (snd (process_entry env cfg dry_run n i entry c s)) = trace s
       \<and> process_entries env cfg dry_run n i (entry # rest) c s =
           process_entries env cfg dry_run n (i + 1) rest (c\<lparr>not_found := not_found c + 1\<rparr>)
             (print (WarnNoLink (mapping_name cfg))
               (print (EntryLine i n (entry ''sourceObjectId'') (entry ''targetObjectId'')) s))"
proof -
  have pe: "process_entry env cfg dry_run n i entry c s =
           (Inr (c\<lparr>not_found := not_found c + 1\<rparr>),
            print (WarnNoLink (mapping_name cfg))
              (print (EntryLine i n (entry ''sourceObjectId'') (entry ''targetObjectId'')) s))"
    using assms by (simp add: process_entry_def Let_def find_link_none)
  moreover have "trace (snd (process_entry env cfg dry_run n i entry c s)) = trace s"
    by (simp add: pe print_def)
  moreover have "process_entries env cfg dry_run n i (entry # rest) c s =
           process_entries env cfg dry_run n (i + 1) rest (c\<lparr>not_found := not_found c + 1\<rparr>)
             (print (WarnNoLink (mapping_name cfg))
               (print (EntryLine i n (entry ''sourceObjectId'') (entry ''targetObjectId'')) s))"
    by (simp add: pe)
  ultimately show ?thesis using assms by (simp add: find_link_none)
qed

theorem no_ids_counts_not_found_witness:
  "falsy (entry_blank ''sourceObjectId'') \<and> falsy (entry_blank ''targetObjectId'')
   \<and> process_entry scripted (demo_cfg (-1)) False 1 1 entry_blank zero_counters (init_state []) =
       (Inr \<lparr>deleted = 0, failed = 0, not_found = 1\<rparr>,
        \<lparr>server = [], token = None, trace = [],
         out = [EntryLine 1 1 None (Some []), WarnNoLink ''m'']\<rparr>)"
proof -
  have h1: "falsy (entry_blank ''sourceObjectId'')" by (simp add: falsy_def entry_blank_def)
  have h2: "falsy (entry_blank ''targetObjectId'')" by (simp add: falsy_def entry_blank_def)
  have v: "entry_blank ''sourceObjectId'' = None" "entry_blank ''targetObjectId'' = Some []"
    by (simp_all add: entry_blank_def)
  show ?thesis
    using no_ids_counts_not_found [OF h1 h2, of scripted "demo_cfg (-1)" "init_state []"
        False 1 1 zero_counters "[]"] h1 h2
    by (simp add: print_def init_state_def zero_counters_def demo_cfg_def v)
qed

section \<open>Dry run: the entries processed\<close>

lemma to_process_zero: "to_process 0 es = es"
  by (simp add: to_process_def)

section \<open>The latest reconciliation run\<close>





section \<open>Resolving the links of an entry\<close>

lemma do_request_attempt_return:
  assumes "do_request_attempt env cfg m path ps rv attempt s = (Return data, s')"
  shows "\<exists>tok code. (mk_request cfg m path ps rv tok, Reply code data) \<in> set (trace s')
           \<and> \<not> raise_for_status code"
proof -
  obtain r1 s1 where g: "get_token env cfg s = (r1, s1)" by force
  from assms g obtain tok where r1: "r1 = Inr tok"
    by (cases r1) (auto simp: do_request_attempt_def)
  obtain rp s2 where sd: "send env (mk_request cfg m path ps rv tok) s1 = (rp, s2)" by force
  from assms g r1 sd obtain code d where rp: "rp = Reply code d"
    by (cases rp) (auto simp: do_request_attempt_def)
  from assms g r1 sd rp have k: "\<not> raise_for_status code" "d = data" "s' = s2"
    by (auto simp: do_request_attempt_def split: if_splits prod.splits sum.splits)
  from sd have "(mk_request cfg m path ps rv tok, rp) \<in> set (trace s2)"
    by (auto simp: send_def split: prod.splits)
  with k rp show ?thesis by blast
qed

lemma extends_trace_mono:
  "extends Q E s s' \<Longrightarrow> x \<in> set (trace s) \<Longrightarrow> x \<in> set (trace s')"
  unfolding extends_def by auto

lemma do_request_loop_return:
  "do_request_loop env cfg m path ps rv as s = (Inr (Some data), s') \<Longrightarrow>
   \<exists>tok code. (mk_request cfg m path ps rv tok, Reply code data) \<in> set (trace s')
           \<and> \<not> raise_for_status code"
proof (induction as arbitrary: s)
  case Nil
  then show ?case by simp
next
  case (Cons a as)
  obtain f s1 where at: "do_request_attempt env cfg m path ps rv a s = (f, s1)" by force
  show ?case
  proof (cases f)
    case Continue
    with Cons.prems at
    have "do_request_loop env cfg m path ps rv as s1 = (Inr (Some data), s')" by simp
    then show ?thesis by (rule Cons.IH)
  next
    case (Return d)
    with Cons.prems at have "d = data" "s1 = s'" by simp_all
    with at Return show ?thesis by (auto dest: do_request_attempt_return)
  next
    case (Raise e)
    with Cons.prems at show ?thesis by simp
  qed
qed

lemma api_get_return:
  assumes "api_get env cfg path ps s = (Inr (Some data), s')"
  shows "\<exists>tok code. (mk_request cfg GET path ps None tok, Reply code data) \<in> set (trace s')
           \<and> \<not> raise_for_status code"
  using assms unfolding api_get_def do_request_def by (rule do_request_loop_return)

lemma dedupe_sound:
  "dedupe cs seen unique = Inr u \<Longrightarrow> set u \<subseteq> set unique \<union> set cs"
proof (induction cs arbitrary: seen unique)
  case Nil
  then show ?case by simp
next
  case (Cons c cs)
  then show ?case
    by (fastforce split: option.splits if_splits)
qed

lemma dedupe_complete:
  assumes "\<forall>c \<in> set cs. c ''_id'' \<noteq> None"
  shows "\<exists>u. dedupe cs seen unique = Inr u \<and> set unique \<subseteq> set u \<and>
           (\<forall>c \<in> set cs. (\<exists>j. c ''_id'' = Some j \<and> j \<in> seen)
                           \<or> (\<exists>c' \<in> set u. c' ''_id'' = c ''_id''))"
  using assms
proof (induction cs arbitrary: seen unique)
  case Nil
  then show ?case by simp
next
  case (Cons c cs)
  then obtain i where i: "c ''_id'' = Some i" by auto
  from Cons.prems have rest: "\<forall>c \<in> set cs. c ''_id'' \<noteq> None" by simp
  show ?case
  proof (cases "i \<in> seen")
    case True
    from Cons.IH [OF rest, of seen unique] True i show ?thesis by auto
  next
    case False
    from Cons.IH [OF rest, of "insert i seen" "unique @ [c]"]
    obtain u where u: "dedupe cs (insert i seen) (unique @ [c]) = Inr u"
      "set (unique @ [c]) \<subseteq> set u"
      "\<forall>c2 \<in> set cs. (\<exists>j. c2 ''_id'' = Some j \<and> j \<in> insert i seen)
                           \<or> (\<exists>c' \<in> set u. c' ''_id'' = c2 ''_id'')"
      by blast
    have cu: "c \<in> set u" using u(2) by auto
    have "(\<exists>j. c2 ''_id'' = Some j \<and> j \<in> seen) \<or> (\<exists>c' \<in> set u. c' ''_id'' = c2 ''_id'')"
      if "c2 \<in> set (c # cs)" for c2
    proof (cases "c2 ''_id'' = Some i")
      case True
      with cu i show ?thesis by metis
    next
      case False
      with that i have "c2 \<in> set cs" by auto
      with u(3) False show ?thesis by auto
    qed
    moreover have "dedupe (c # cs) seen unique = Inr u"
      using i False u(1) by simp
    moreover have "set unique \<subseteq> set u" using u(2) by auto
    ultimately show ?thesis by blast
  qed
qed

lemma dedupe_by_id:
  assumes ids: "\<forall>c \<in> set cs. c ''_id'' \<noteq> None"
    and inj: "inj_on (\<lambda>c. c ''_id'') (set cs)"
  shows "\<exists>u. dedupe cs {} [] = Inr u \<and> set u = set cs"
proof -
  from dedupe_complete [OF ids, of "{}" "[]"]
  obtain u where u: "dedupe cs {} [] = Inr u"
    "\<forall>c \<in> set cs. \<exists>c' \<in> set u. c' ''_id'' = c ''_id''" by auto
  from dedupe_sound [OF u(1)] have sub: "set u \<subseteq> set cs" by simp
  have "c \<in> set u" if "c \<in> set cs" for c
  proof -
    from u(2) that obtain c' where c': "c' \<in> set u" "c' ''_id'' = c ''_id''" by blast
    with sub inj that have "c' = c" by (auto dest: inj_onD)
    with c' show ?thesis by simp
  qed
  with sub u(1) show ?thesis by blast
qed

lemma search_ids_only: "only_id a b x \<Longrightarrow> search_ids env a b = [x]"
  by (auto simp: only_id_def falsy_def search_ids_def truthy_ids_def)

lemma find_link_single:
  assumes "search_ids env a b = [x]"
  shows "find_link env cfg a b s =
     (case api_get env cfg ''/repo/link'' (link_filter ''firstId'' x) s of
        (Inl e, s1) \<Rightarrow> (Inl e, s1)
      | (Inr None, s1) \<Rightarrow> (Inl AttributeError, s1)
      | (Inr (Some d1), s1) \<Rightarrow>
          (case api_get env cfg ''/repo/link'' (link_filter ''secondId'' x) s1 of
             (Inl e, s2) \<Rightarrow> (Inl e, s2)
           | (Inr None, s2) \<Rightarrow> (Inl AttributeError, s2)
           | (Inr (Some d2), s2) \<Rightarrow>
               (case dedupe (get_result d1 @ get_result d2) {} [] of
                  Inl e \<Rightarrow> (Inl e, s2)
                | Inr unique \<Rightarrow>
                    (Inr (filter (\<lambda>c. c ''linkType'' = Some (mapping_name cfg)) unique), s2))))"
  unfolding find_link_def assms
  by (simp split: prod.splits sum.splits option.splits)

text \<open>
  Claim C8.  When exactly one of the two ids of an entry is populated (the other absent
  or empty), \<open>find_link\<close> is two link queries with that id \<open>x\<close>: first with the
  single parameter \<open>_queryFilter = firstId eq "x"\<close>, then, if the first one returned,
  with \<open>_queryFilter = secondId eq "x"\<close>.  When both return, the trace holds a
  \<open>GET\<close> of \<open>/openidm/repo/link\<close> with each of these two parameter lists, answered
  by the body the query returned, and, the returned records being identified by their
  \<open>_id\<close>, the resolved links are exactly the returned records of the configured link
  type, whichever of the two queries returned them.
\<close>

theorem single_id_searches_both_fields:
  assumes "only_id source_id target_id x"
  shows "find_link env cfg source_id target_id s =
     (case api_get env cfg ''/repo/link''
             [(''_queryFilter'', ''firstId eq '' @ [CHR 0x22] @ x @ [CHR 0x22])] s of
        (Inl e, s1) \<Rightarrow> (Inl e, s1)
      | (Inr None, s1) \<Rightarrow> (Inl AttributeError, s1)
      | (Inr (Some d1), s1) \<Rightarrow>
          (case api_get env cfg ''/repo/link''
                  [(''_queryFilter'', ''secondId eq '' @ [CHR 0x22] @ x @ [CHR 0x22])] s1 of
             (Inl e, s2) \<Rightarrow> (Inl e, s2)
           | (Inr None, s2) \<Rightarrow> (Inl AttributeError, s2)
           | (Inr (Some d2), s2) \<Rightarrow>
               (case dedupe (get_result d1 @ get_result d2) {} [] of
                  Inl e \<Rightarrow> (Inl e, s2)
                | Inr unique \<Rightarrow>
                    (Inr (filter (\<lambda>c. c ''linkType'' = Some (mapping_name cfg)) unique), s2))))
    \<and> (\<forall>d1 s1 d2 s2.
          api_get env cfg ''/repo/link''
            [(''_queryFilter'', ''firstId eq '' @ [CHR 0x22] @ x @ [CHR 0x22])] s
            = (Inr (Some d1), s1) \<longrightarrow>
          api_get env cfg ''/repo/link''
            [(''_queryFilter'', ''secondId eq '' @ [CHR 0x22] @ x @ [CHR 0x22])] s1
            = (Inr (Some d2), s2) \<longrightarrow>
          (\<exists>q code. (q, Reply code d1) \<in> set (trace s2) \<and> meth q = GET
               \<and> url q = ''https://'' @ tenant_host cfg @ ''/openidm/repo/link''
               \<and> params q = [(''_queryFilter'', ''firstId eq '' @ [CHR 0x22] @ x @ [CHR 0x22])])
          \<and> (\<exists>q code. (q, Reply code d2) \<in> set (trace s2) \<and> meth q = GET
               \<and> url q = ''https://'' @ tenant_host cfg @ ''/openidm/repo/link''
               \<and> params q = [(''_queryFilter'', ''secondId eq '' @ [CHR 0x22] @ x @ [CHR 0x22])])
          \<and> ((\<forall>c \<in> set (get_result d1 @ get_result d2). c ''_id'' \<noteq> None) \<longrightarrow>
             inj_on (\<lambda>c. c ''_id'') (set (get_result d1 @ get_result d2)) \<longrightarrow>
               (\<exists>links. find_link env cfg source_id target_id s = (Inr links, s2)
                  \<and> set links = {c \<in> set (get_result d1) \<union> set (get_result d2).
                                    c ''linkType'' = Some (mapping_name cfg)})))"
proof -
  let ?p1 = "[(''_queryFilter'', ''firstId eq '' @ [CHR 0x22] @ x @ [CHR 0x22])]"
  let ?p2 = "[(''_queryFilter'', ''secondId eq '' @ [CHR 0x22] @ x @ [CHR 0x22])]"
  let ?u = "''https://'' @ tenant_host cfg @ ''/openidm/repo/link''"
  have lf: "link_filter ''firstId'' x = ?p1" "link_filter ''secondId'' x = ?p2"
    by (simp_all add: link_filter_def quoted_def)
  note eq = find_link_single [OF search_ids_only [OF assms], of env cfg s, unfolded lf]
  have sent: "\<exists>q code. (q, Reply code d) \<in> set (trace s') \<and> meth q = GET \<and> url q = ?u
                \<and> params q = ps"
    if g: "api_get env cfg ''/repo/link'' ps s0 = (Inr (Some d), s')" for ps s0 d s'
  proof -
    from api_get_return [OF g]
    obtain tok code where m: "(mk_request cfg GET ''/repo/link'' ps None tok, Reply code d)
        \<in> set (trace s')" by blast
    have "meth (mk_request cfg GET ''/repo/link'' ps None tok) = GET"
      "url (mk_request cfg GET ''/repo/link'' ps None tok) = ?u"
      "params (mk_request cfg GET ''/repo/link'' ps None tok) = ps"
      by (simp_all add: mk_request_def BASE_URL_def)
    with m show ?thesis by blast
  qed
  have "(\<exists>q code. (q, Reply code d1) \<in> set (trace s2) \<and> meth q = GET \<and> url q = ?u
               \<and> params q = ?p1)
          \<and> (\<exists>q code. (q, Reply code d2) \<in> set (trace s2) \<and> meth q = GET \<and> url q = ?u
               \<and> params q = ?p2)
          \<and> ((\<forall>c \<in> set (get_result d1 @ get_result d2). c ''_id'' \<noteq> None) \<longrightarrow>
             inj_on (\<lambda>c. c ''_id'') (set (get_result d1 @ get_result d2)) \<longrightarrow>
               (\<exists>links. find_link env cfg source_id target_id s = (Inr links, s2)
                  \<and> set links = {c \<in> set (get_result d1) \<union> set (get_result d2).
                                    c ''linkType'' = Some (mapping_name cfg)}))"
    if g1: "api_get env cfg ''/repo/link'' ?p1 s = (Inr (Some d1), s1)"
      and g2: "api_get env cfg ''/repo/link'' ?p2 s1 = (Inr (Some d2), s2)"
    for d1 s1 d2 s2
  proof (intro conjI impI)
    from sent [OF g1] obtain q code where q: "(q, Reply code d1) \<in> set (trace s1)"
      "meth q = GET" "url q = ?u" "params q = ?p1" by blast
    from api_get_extends [OF g2] q(1) have "(q, Reply code d1) \<in> set (trace s2)"
      by (rule extends_trace_mono)
    with q(2-4) show "\<exists>q code. (q, Reply code d1) \<in> set (trace s2) \<and> meth q = GET
        \<and> url q = ?u \<and> params q = ?p1" by blast
  next
    show "\<exists>q code. (q, Reply code d2) \<in> set (trace s2) \<and> meth q = GET \<and> url q = ?u
        \<and> params q = ?p2" by (rule sent [OF g2])
  next
    assume ids: "\<forall>c \<in> set (get_result d1 @ get_result d2). c ''_id'' \<noteq> None"
      and inj: "inj_on (\<lambda>c. c ''_id'') (set (get_result d1 @ get_result d2))"
    from dedupe_by_id [OF ids inj]
    obtain u where u: "dedupe (get_result d1 @ get_result d2) {} [] = Inr u"
      "set u = set (get_result d1 @ get_result d2)" by blast
    have "find_link env cfg source_id target_id s =
        (Inr (filter (\<lambda>c. c ''linkType'' = Some (mapping_name cfg)) u), s2)"
      unfolding eq by (simp only: g1 g2 u(1) prod.case sum.case option.case)
    moreover have "set (filter (\<lambda>c. c ''linkType'' = Some (mapping_name cfg)) u) =
        {c \<in> set (get_result d1) \<union> set (get_result d2). c ''linkType'' = Some (mapping_name cfg)}"
      using u(2) by auto
    ultimately show "\<exists>links. find_link env cfg source_id target_id s = (Inr links, s2)
        \<and> set links = {c \<in> set (get_result d1) \<union> set (get_result d2).
                          c ''linkType'' = Some (mapping_name cfg)}" by blast
  qed
  then have all: "\<forall>d1 s1 d2 s2.
          api_get env cfg ''/repo/link'' ?p1 s = (Inr (Some d1), s1) \<longrightarrow>
          api_get env cfg ''/repo/link'' ?p2 s1 = (Inr (Some d2), s2) \<longrightarrow>
          (\<exists>q code. (q, Reply code d1) \<in> set (trace s2) \<and> meth q = GET \<and> url q = ?u
               \<and> params q = ?p1)
          \<and> (\<exists>q code. (q, Reply code d2) \<in> set (trace s2) \<and> meth q = GET \<and> url q = ?u
               \<and> params q = ?p2)
          \<and> ((\<forall>c \<in> set (get_result d1 @ get_result d2). c ''_id'' \<noteq> None) \<longrightarrow>
             inj_on (\<lambda>c. c ''_id'') (set (get_result d1 @ get_result d2)) \<longrightarrow>
               (\<exists>links. find_link env cfg source_id target_id s = (Inr links, s2)
                  \<and> set links = {c \<in> set (get_result d1) \<union> set (get_result d2).
                                    c ''linkType'' = Some (mapping_name cfg)}))"
    by (intro allI impI)
  from eq all show ?thesis by (rule conjI)
qed

lemma demo_link_members:
  "link_a ''_id'' = Some ''L1''" "link_a ''linkType'' = Some ''m''"
  "link_other ''_id'' = Some ''L2''" "link_other ''linkType'' = Some ''other''"
  "link_back ''_id'' = Some ''L3''" "link_back ''linkType'' = Some ''m''"
  by (simp_all add: link_a_def link_other_def link_back_def)

lemma stored_link_ids:
  "link_a ''firstId'' = Some ''a''" "link_a ''secondId'' = Some ''x''"
  "link_other ''firstId'' = Some ''a''" "link_other ''secondId'' = Some ''y''"
  "link_back ''firstId'' = Some ''z''" "link_back ''secondId'' = Some ''a''"
  "link_b ''firstId'' = Some ''b''" "link_b ''secondId'' = Some ''w''"
  by (simp_all add: link_a_def link_other_def link_back_def link_b_def)

lemmas run_defs =
  api_get_def api_delete_def do_request_def do_request_attempt_def get_token_def refresh_def
  send_def scripted_def init_state_def token_reply_def results_reply_def no_members_def
  falsy_def raise_for_status_def print_def token_request_def

lemmas tenant_defs =
  tenant_def asks_for_def stored_links_def stored_link_ids mk_request_def BASE_URL_def
  demo_cfg_def bearer_def

theorem single_id_searches_both_fields_witness:
  "only_id (entry_a ''sourceObjectId'') (entry_a ''targetObjectId'') ''a''
   \<and> (\<exists>links. fst (find_link tenant (demo_cfg (-1)) (entry_a ''sourceObjectId'')
                   (entry_a ''targetObjectId'') (init_state stored_links)) = Inr links
         \<and> set links = {link_a, link_back})
   \<and> (case fst (find_link tenant (demo_cfg (-1)) (entry_a ''sourceObjectId'')
                   (entry_a ''targetObjectId'') (init_state stored_links)) of
         Inr links \<Rightarrow> map (\<lambda>l. l ''_id'') links = [Some ''L1'', Some ''L3'']
       | Inl e \<Rightarrow> False)
   \<and> map (\<lambda>x. (meth (fst x), url (fst x), params (fst x)))
       (trace (snd (find_link tenant (demo_cfg (-1)) (entry_a ''sourceObjectId'')
                      (entry_a ''targetObjectId'') (init_state stored_links))))
       = [(POST, ''https://idm.example/am/oauth2/access_token'', []),
          (GET, ''https://idm.example/openidm/repo/link'',
             [(''_queryFilter'', ''firstId eq '' @ [CHR 0x22] @ ''a'' @ [CHR 0x22])]),
          (GET, ''https://idm.example/openidm/repo/link'',
             [(''_queryFilter'', ''secondId eq '' @ [CHR 0x22] @ ''a'' @ [CHR 0x22])])]"
proof -
  let ?cfg = "demo_cfg (-1)"
  let ?s = "init_state stored_links"
  let ?g1 = "api_get tenant ?cfg ''/repo/link''
               [(''_queryFilter'', ''firstId eq '' @ [CHR 0x22] @ ''a'' @ [CHR 0x22])] ?s"
  let ?g2 = "api_get tenant ?cfg ''/repo/link''
               [(''_queryFilter'', ''secondId eq '' @ [CHR 0x22] @ ''a'' @ [CHR 0x22])] (snd ?g1)"
  have h: "only_id (entry_a ''sourceObjectId'') (entry_a ''targetObjectId'') ''a''"
    by (simp add: only_id_def entry_a_def falsy_def)
  have "fst ?g1 = Inr (Some first_body)"
    by (simp add: run_defs tenant_defs first_body_def)
  then have g1: "?g1 = (Inr (Some first_body), snd ?g1)" by (metis prod.collapse)
  have "fst ?g2 = Inr (Some second_body)"
    by (simp add: run_defs tenant_defs second_body_def)
  then have g2: "?g2 = (Inr (Some second_body), snd ?g2)" by (metis prod.collapse)
  have ids: "\<forall>c \<in> set (get_result first_body @ get_result second_body). c ''_id'' \<noteq> None"
    by (simp add: get_result_def first_body_def second_body_def no_members_def demo_link_members)
  have inj: "inj_on (\<lambda>c. c ''_id'') (set (get_result first_body @ get_result second_body))"
    by (auto simp: inj_on_def get_result_def first_body_def second_body_def no_members_def
        demo_link_members)
  have st: "{c \<in> set (get_result first_body) \<union> set (get_result second_body).
              c ''linkType'' = Some (mapping_name ?cfg)} = {link_a, link_back}"
    by (auto simp: get_result_def first_body_def second_body_def no_members_def
        demo_link_members demo_cfg_def)
  note c8 = single_id_searches_both_fields [OF h, of tenant ?cfg ?s]
  from conjunct2 [OF c8, rule_format, OF g1 g2] ids inj
  have "\<exists>links. find_link tenant ?cfg (entry_a ''sourceObjectId'') (entry_a ''targetObjectId'') ?s
                   = (Inr links, snd ?g2)
         \<and> set links = {c \<in> set (get_result first_body) \<union> set (get_result second_body).
                          c ''linkType'' = Some (mapping_name ?cfg)}"
    by blast
  then have a: "\<exists>links. fst (find_link tenant ?cfg (entry_a ''sourceObjectId'')
                   (entry_a ''targetObjectId'') ?s) = Inr links
         \<and> set links = {link_a, link_back}"
    unfolding st by fastforce
  have b: "case fst (find_link tenant ?cfg (entry_a ''sourceObjectId'')
                   (entry_a ''targetObjectId'') ?s) of
         Inr links \<Rightarrow> map (\<lambda>l. l ''_id'') links = [Some ''L1'', Some ''L3'']
       | Inl e \<Rightarrow> False"
    by code_simp
  have c: "map (\<lambda>x. (meth (fst x), url (fst x), params (fst x)))
       (trace (snd (find_link tenant ?cfg (entry_a ''sourceObjectId'')
                      (entry_a ''targetObjectId'') ?s)))
       = [(POST, ''https://idm.example/am/oauth2/access_token'', []),
          (GET, ''https://idm.example/openidm/repo/link'',
             [(''_queryFilter'', ''firstId eq '' @ [CHR 0x22] @ ''a'' @ [CHR 0x22])]),
          (GET, ''https://idm.example/openidm/repo/link'',
             [(''_queryFilter'', ''secondId eq '' @ [CHR 0x22] @ ''a'' @ [CHR 0x22])])]"
    by code_simp
  from h a b c show ?thesis by blast
qed

section \<open>Pagination\<close>

lemma api_get_issued:
  "api_get env cfg path ps s = (r, s') \<Longrightarrow> extends (issued cfg GET path ps None) quiet s s'"
  unfolding api_get_def by (rule do_request_extends)

lemma page_params_query: "page_params cookie = page_query cookie"
  by (simp add: page_params_def page_query_def quoted_def split: option.splits list.splits)

lemma page_request_mk:
  "page_request cfg recon_id (mk_request cfg GET (entry_path recon_id) (page_params cookie) None tok)"
  by (simp add: page_request_def mk_request_def BASE_URL_def entry_path_def page_params_query
      page_query_def split: option.splits list.splits)

lemma page_get_extends:
  assumes "api_get env cfg (entry_path recon_id) (page_params cookie) s = (r, s1)"
  shows "extends (\<lambda>q. meth q = POST \<or> page_request cfg recon_id q) is_page_line s
           (print (FetchedPage p n) s1)"
proof -
  have "extends (\<lambda>q. meth q = POST \<or> page_request cfg recon_id q) is_page_line s s1"
    using api_get_issued [OF assms]
    by (rule extends_mono)
      (auto simp: issued_def page_request_mk quiet_def)
  moreover have "extends (\<lambda>q. meth q = POST \<or> page_request cfg recon_id q) is_page_line s1
      (print (FetchedPage p n) s1)"
    by (rule extends_print) simp
  ultimately show ?thesis by (rule extends_trans)
qed

lemma fetches_extends:
  "fetches env cfg recon_id cookie page s batches s' \<Longrightarrow>
   extends (\<lambda>q. meth q = POST \<or> page_request cfg recon_id q) is_page_line s s'"
proof (induction rule: fetches.induct)
  case (final cookie s data s1 page)
  from final(1)
  have "api_get env cfg (entry_path recon_id) (page_params cookie) s = (Inr (Some data), s1)"
    by (simp add: page_params_query entry_path_def)
  then show ?case by (rule page_get_extends)
next
  case (more cookie s data s1 page batches s')
  from more.hyps(1)
  have "api_get env cfg (entry_path recon_id) (page_params cookie) s = (Inr (Some data), s1)"
    by (simp add: page_params_query entry_path_def)
  from page_get_extends [OF this] more.IH show ?case
    by (rule extends_trans)
qed

lemma fetches_entries_loop:
  "fetches env cfg recon_id cookie page s batches s' \<Longrightarrow>
   entries_loop env cfg recon_id entries cookie page s = Some (Inr (entries @ concat batches), s')"
proof (induction arbitrary: entries rule: fetches.induct)
  case (final cookie s data s1 page)
  then show ?case
    by (subst entries_loop.simps) (auto simp: Let_def page_params_query entry_path_def)
next
  case (more cookie s data s1 page batches s')
  have "entries_loop env cfg recon_id entries cookie page s =
        entries_loop env cfg recon_id (entries @ get_result data) (pagedResultsCookie data)
          (page + 1) (print (FetchedPage (page + 1) (length (get_result data))) s1)"
    using more.hyps(1-3)
    by (subst entries_loop.simps) (simp add: Let_def page_params_query entry_path_def)
  with more.IH [of "entries @ get_result data"] show ?case by simp
qed

text \<open>
  Claim C7.  If the page requests of a call, the first one sent without a continuation
  token and each later one with the token the page before it returned, reach a page with
  no continuation token or with no entry, the call returns: its value is the
  concatenation, in the order received, of the result lists of the pages up to and
  including that first such page.  Every request it sends besides token requests is a
  \<open>GET\<close> of the run's entry collection with page size 500, the
  \<open>FOUND_ALREADY_LINKED\<close> filter and at most a continuation token.  The function takes
  the run id only: the run's reported situation count is not among its inputs.
\<close>

theorem pagination_returns_all_pages:
  assumes "fetches env cfg recon_id None 0 s batches s'"
  shows "get_found_already_linked_entries env cfg recon_id s = Some (Inr (concat batches), s')
       \<and> (\<exists>tr. trace s' = trace s @ tr
              \<and> (\<forall>x \<in> set tr. meth (fst x) = POST \<or> page_request cfg recon_id (fst x)))"
proof -
  have "get_found_already_linked_entries env cfg recon_id s = Some (Inr (concat batches), s')"
    unfolding get_found_already_linked_entries_def
    using fetches_entries_loop [OF assms, of "[]"] by simp
  moreover from fetches_extends [OF assms]
  have "\<exists>tr. trace s' = trace s @ tr
              \<and> (\<forall>x \<in> set tr. meth (fst x) = POST \<or> page_request cfg recon_id (fst x))"
    unfolding extends_def by blast
  ultimately show ?thesis by blast
qed

theorem pagination_returns_all_pages_witness:
  "(\<exists>s'. fetches tenant (demo_cfg (-1)) ''r1'' None 0 (init_state stored_links)
            [[entry_a, entry_b], [entry_c]] s'
        \<and> get_found_already_linked_entries tenant (demo_cfg (-1)) ''r1'' (init_state stored_links)
            = Some (Inr [entry_a, entry_b, entry_c], s'))
   \<and> (case get_found_already_linked_entries tenant (demo_cfg (-1)) ''r1''
              (init_state stored_links) of
         Some (Inr es, s') \<Rightarrow> length es = 3
             \<and> map (\<lambda>x. (meth (fst x), url (fst x), params (fst x))) (trace s')
                 = [(POST, ''https://idm.example/am/oauth2/access_token'', []),
                    (GET, ''https://idm.example/openidm/recon/assoc/r1/entry'',
                       [(''_queryFilter'',
                           ''situation eq '' @ [CHR 0x22] @ ''FOUND_ALREADY_LINKED'' @ [CHR 0x22]),
                        (''_pageSize'', ''500'')]),
                    (GET, ''https://idm.example/openidm/recon/assoc/r1/entry'',
                       [(''_queryFilter'',
                           ''situation eq '' @ [CHR 0x22] @ ''FOUND_ALREADY_LINKED'' @ [CHR 0x22]),
                        (''_pageSize'', ''500''), (''_pagedResultsCookie'', ''c1'')])]
             \<and> [e \<leftarrow> out s'. e \<noteq> TokenAcquired] = [FetchedPage 1 2, FetchedPage 2 1]
       | _ \<Rightarrow> False)"
proof -
  let ?cfg = "demo_cfg (-1)"
  let ?s = "init_state stored_links"
  let ?g1 = "api_get tenant ?cfg (''/recon/assoc/'' @ ''r1'' @ ''/entry'') (page_query None) ?s"
  let ?s1 = "print (FetchedPage (0 + 1) (length (get_result page_one))) (snd ?g1)"
  let ?g2 = "api_get tenant ?cfg (''/recon/assoc/'' @ ''r1'' @ ''/entry'')
               (page_query (pagedResultsCookie page_one)) ?s1"
  let ?s2 = "print (FetchedPage (0 + 1 + 1) (length (get_result page_two))) (snd ?g2)"
  have ck: "pagedResultsCookie page_one = Some ''c1''"
    by (simp add: page_one_def no_members_def)
  have "fst ?g1 = Inr (Some page_one)"
    by (simp add: run_defs tenant_defs page_query_def)
  then have g1: "?g1 = (Inr (Some page_one), snd ?g1)" by (metis prod.collapse)
  have "fst ?g2 = Inr (Some page_two)"
    unfolding ck by (simp add: run_defs tenant_defs page_query_def)
  then have g2: "?g2 = (Inr (Some page_two), snd ?g2)" by (metis prod.collapse)
  have c1: "\<not> falsy (pagedResultsCookie page_one)" "get_result page_one \<noteq> []"
    by (simp_all add: page_one_def no_members_def falsy_def get_result_def)
  have c2: "falsy (pagedResultsCookie page_two) \<or> get_result page_two = []"
    by (simp add: page_two_def no_members_def falsy_def)
  have "fetches tenant ?cfg ''r1'' None 0 ?s [get_result page_one, get_result page_two] ?s2"
    by (rule fetches.more [OF g1 c1 fetches.final [OF g2 c2]])
  then have f: "fetches tenant ?cfg ''r1'' None 0 ?s [[entry_a, entry_b], [entry_c]] ?s2"
    by (simp add: get_result_def page_one_def page_two_def no_members_def)
  from pagination_returns_all_pages [OF f]
  have "get_found_already_linked_entries tenant ?cfg ''r1'' ?s
      = Some (Inr [entry_a, entry_b, entry_c], ?s2)" by simp
  with f have a: "\<exists>s'. fetches tenant ?cfg ''r1'' None 0 ?s [[entry_a, entry_b], [entry_c]] s'
        \<and> get_found_already_linked_entries tenant ?cfg ''r1'' ?s
            = Some (Inr [entry_a, entry_b, entry_c], s')" by blast
  have b: "case get_found_already_linked_entries tenant ?cfg ''r1'' ?s of
         Some (Inr es, s') \<Rightarrow> length es = 3
             \<and> map (\<lambda>x. (meth (fst x), url (fst x), params (fst x))) (trace s')
                 = [(POST, ''https://idm.example/am/oauth2/access_token'', []),
                    (GET, ''https://idm.example/openidm/recon/assoc/r1/entry'',
                       [(''_queryFilter'',
                           ''situation eq '' @ [CHR 0x22] @ ''FOUND_ALREADY_LINKED'' @ [CHR 0x22]),
                        (''_pageSize'', ''500'')]),
                    (GET, ''https://idm.example/openidm/recon/assoc/r1/entry'',
                       [(''_queryFilter'',
                           ''situation eq '' @ [CHR 0x22] @ ''FOUND_ALREADY_LINKED'' @ [CHR 0x22]),
                        (''_pageSize'', ''500''), (''_pagedResultsCookie'', ''c1'')])]
             \<and> [e \<leftarrow> out s'. e \<noteq> TokenAcquired] = [FetchedPage 1 2, FetchedPage 2 1]
       | _ \<Rightarrow> False"
    by code_simp
  from a b show ?thesis by blast
qed

section \<open>The retry on an expired token\<close>











section \<open>Failed deletes\<close>

lemma refresh_error: "refresh env cfg s = (Inl e, s') \<Longrightarrow> is_Exception e"
  by (auto simp: refresh_def split: prod.splits reply.splits if_splits option.splits)

lemma get_token_error: "get_token env cfg s = (Inl e, s') \<Longrightarrow> is_Exception e"
  by (auto simp: get_token_def split: if_splits prod.splits sum.splits dest: refresh_error)

lemma do_request_attempt_error:
  assumes "do_request_attempt env cfg m path ps rv attempt s = (Raise e, s')"
  shows "is_Exception e"
proof -
  obtain r1 s1 where g: "get_token env cfg s = (r1, s1)" by force
  show ?thesis
  proof (cases r1)
    case (Inl e1)
    with assms g have "e = e1" by (simp add: do_request_attempt_def)
    with g Inl show ?thesis by (auto dest: get_token_error)
  next
    case (Inr tok)
    obtain rp s2 where sd: "send env (mk_request cfg m path ps rv tok) s1 = (rp, s2)" by force
    show ?thesis
    proof (cases rp)
      case NoReply
      with assms g Inr sd show ?thesis by (auto simp: do_request_attempt_def)
    next
      case (Reply code data)
      obtain r3 s3 where rf: "refresh env cfg (print TokenExpired s2) = (r3, s3)" by force
      from assms g Inr sd Reply rf
      have "e = HTTPError code \<or> r3 = Inl e"
        by (auto simp: do_request_attempt_def split: if_splits sum.splits)
      with rf show ?thesis by (auto dest: refresh_error)
    qed
  qed
qed

lemma do_request_loop_error:
  "do_request_loop env cfg m path ps rv as s = (Inl e, s') \<Longrightarrow> is_Exception e"
proof (induction as arbitrary: s)
  case Nil
  then show ?case by simp
next
  case (Cons a as)
  obtain f s1 where at: "do_request_attempt env cfg m path ps rv a s = (f, s1)" by force
  show ?case
  proof (cases f)
    case Continue
    with Cons.prems at have "do_request_loop env cfg m path ps rv as s1 = (Inl e, s')" by simp
    then show ?thesis by (rule Cons.IH)
  next
    case (Return d)
    with Cons.prems at show ?thesis by simp
  next
    case (Raise e1)
    with Cons.prems at have "e1 = e" by simp
    with at Raise show ?thesis by (auto dest: do_request_attempt_error)
  qed
qed

lemma api_delete_error: "api_delete env cfg path rv s = (Inl e, s') \<Longrightarrow> is_Exception e"
  unfolding api_delete_def do_request_def by (rule do_request_loop_error)

lemma process_link_failed:
  assumes "link ''_id'' = Some link_id" "link ''_rev'' = Some link_rev"
    "link ''firstId'' = Some f" "link ''secondId'' = Some sd"
    and "api_delete env cfg (''/repo/link/'' @ link_id) link_rev (print (FoundLink link_id f sd) s)
           = (Inl e, s2)"
  shows "process_link env cfg False link c s =
           (Inr (c\<lparr>failed := failed c + 1\<rparr>), print (ErrorDeleting link_id e) s2)"
  using assms api_delete_error [OF assms(5)] by (simp add: process_link_def)

lemma process_link_deleted:
  assumes "link ''_id'' = Some link_id" "link ''_rev'' = Some link_rev"
    "link ''firstId'' = Some f" "link ''secondId'' = Some sd"
    and "api_delete env cfg (''/repo/link/'' @ link_id) link_rev (print (FoundLink link_id f sd) s)
           = (Inr d, s2)"
  shows "process_link env cfg False link c s =
           (Inr (c\<lparr>deleted := deleted c + 1\<rparr>), print (DeletedLink link_id) s2)"
  using assms by (simp add: process_link_def)

lemma process_link_dry:
  assumes "link ''_id'' = Some link_id" "link ''_rev'' = Some link_rev"
    "link ''firstId'' = Some f" "link ''secondId'' = Some sd"
  shows "process_link env cfg True link c s =
           (Inr c, print (WouldDelete link_id) (print (FoundLink link_id f sd) s))"
  using assms by (simp add: process_link_def)

lemma process_link_continues:
  assumes "well_formed link"
  shows "\<exists>c' s'. process_link env cfg dry link c s = (Inr c', s')
           \<and> deleted c' + failed c' = deleted c + failed c + (if dry then 0 else 1)
           \<and> not_found c' = not_found c"
proof -
  from assms obtain i rv f sd where k: "link ''_id'' = Some i" "link ''_rev'' = Some rv"
    "link ''firstId'' = Some f" "link ''secondId'' = Some sd"
    by (auto simp: well_formed_def)
  show ?thesis
  proof (cases dry)
    case True
    with process_link_dry [OF k, of env cfg c s] show ?thesis by simp
  next
    case False
    obtain r s2 where d: "api_delete env cfg (''/repo/link/'' @ i) rv (print (FoundLink i f sd) s)
           = (r, s2)" by force
    show ?thesis
    proof (cases r)
      case (Inl e)
      with process_link_failed [OF k, of env cfg s e s2 c] d False show ?thesis by simp
    next
      case (Inr b)
      with process_link_deleted [OF k, of env cfg s b s2 c] d False show ?thesis by simp
    qed
  qed
qed

lemma process_links_continue:
  "\<forall>l \<in> set links. well_formed l \<Longrightarrow>
   \<exists>c' s'. process_links env cfg dry links c s = (Inr c', s')
      \<and> deleted c' + failed c' = deleted c + failed c + (if dry then 0 else length links)
      \<and> not_found c' = not_found c"
proof (induction links arbitrary: c s)
  case Nil
  then show ?case by simp
next
  case (Cons l links)
  then have "well_formed l" by simp
  from process_link_continues [OF this, of env cfg dry c s]
  obtain c1 s1 where p: "process_link env cfg dry l c s = (Inr c1, s1)"
    "deleted c1 + failed c1 = deleted c + failed c + (if dry then 0 else 1)"
    "not_found c1 = not_found c" by blast
  from Cons.prems have "\<forall>l \<in> set links. well_formed l" by simp
  from Cons.IH [OF this, of c1 s1]
  obtain c' s' where q: "process_links env cfg dry links c1 s1 = (Inr c', s')"
    "deleted c' + failed c' = deleted c1 + failed c1 + (if dry then 0 else length links)"
    "not_found c' = not_found c1" by blast
  from p q show ?case by auto
qed

text \<open>
  Claim C9.  Outside dry-run mode, for a resolved link that has its four members:
  \<^item> if \<open>api_delete\<close> raises, the loop body catches the error, adds one to \<open>failed\<close>,
    leaves \<open>deleted\<close> as it is, prints the error line and raises nothing;
  \<^item> if \<open>api_delete\<close> returns, it adds one to \<open>deleted\<close> and leaves \<open>failed\<close>;
  \<^item> so the loop over the links of an entry never raises, whatever the service answers
    to the deletes, and counts every link in exactly one of the two counters;
  \<^item> and an entry whose links were resolved is left without an error, the loop over the
    entries going on with the next entry.
\<close>

theorem delete_failure_counted_and_continues:
  "(\<forall>link_id link_rev f sd r s2.
       link ''_id'' = Some link_id \<longrightarrow> link ''_rev'' = Some link_rev \<longrightarrow>
       link ''firstId'' = Some f \<longrightarrow> link ''secondId'' = Some sd \<longrightarrow>
       api_delete env cfg (''/repo/link/'' @ link_id) link_rev (print (FoundLink link_id f sd) s)
         = (r, s2) \<longrightarrow>
         (\<forall>e. r = Inl e \<longrightarrow>
            process_link env cfg False link c s =
              (Inr (c\<lparr>failed := failed c + 1\<rparr>), print (ErrorDeleting link_id e) s2)
            \<and> (\<forall>links. process_links env cfg False (link # links) c s =
                  process_links env cfg False links (c\<lparr>failed := failed c + 1\<rparr>)
                    (print (ErrorDeleting link_id e) s2)))
       \<and> (\<forall>d. r = Inr d \<longrightarrow>
            process_link env cfg False link c s =
              (Inr (c\<lparr>deleted := deleted c + 1\<rparr>), print (DeletedLink link_id) s2)))
   \<and> (\<forall>links. (\<forall>l \<in> set links. well_formed l) \<longrightarrow>
         (\<exists>c' s'. process_links env cfg False links c s = (Inr c', s')
            \<and> deleted c' + failed c' = deleted c + failed c + length links
            \<and> not_found c' = not_found c))
   \<and> (\<forall>entry links s1 n i.
         find_link env cfg (entry ''sourceObjectId'') (entry ''targetObjectId'')
           (print (EntryLine i n (entry ''sourceObjectId'') (entry ''targetObjectId'')) s)
           = (Inr links, s1) \<longrightarrow>
         (\<forall>l \<in> set links. well_formed l) \<longrightarrow>
         (\<exists>c' s'. process_entry env cfg False n i entry c s = (Inr c', s')
            \<and> (\<forall>rest. process_entries env cfg False n i (entry # rest) c s =
                  process_entries env cfg False n (i + 1) rest c' s')))"
proof -
  have a: "process_link env cfg False link c s =
              (Inr (c\<lparr>failed := failed c + 1\<rparr>), print (ErrorDeleting link_id e) s2)
            \<and> (\<forall>links. process_links env cfg False (link # links) c s =
                  process_links env cfg False links (c\<lparr>failed := failed c + 1\<rparr>)
                    (print (ErrorDeleting link_id e) s2))"
    if "link ''_id'' = Some link_id" "link ''_rev'' = Some link_rev"
      "link ''firstId'' = Some f" "link ''secondId'' = Some sd"
      "api_delete env cfg (''/repo/link/'' @ link_id) link_rev (print (FoundLink link_id f sd) s)
         = (Inl e, s2)"
    for link_id link_rev f sd e s2
    using process_link_failed [OF that, of c] by simp
  have b: "process_link env cfg False link c s =
              (Inr (c\<lparr>deleted := deleted c + 1\<rparr>), print (DeletedLink link_id) s2)"
    if "link ''_id'' = Some link_id" "link ''_rev'' = Some link_rev"
      "link ''firstId'' = Some f" "link ''secondId'' = Some sd"
      "api_delete env cfg (''/repo/link/'' @ link_id) link_rev (print (FoundLink link_id f sd) s)
         = (Inr d, s2)"
    for link_id link_rev f sd d s2
    using that by (rule process_link_deleted)
  have l: "\<exists>c' s'. process_links env cfg False links c s = (Inr c', s')
            \<and> deleted c' + failed c' = deleted c + failed c + length links
            \<and> not_found c' = not_found c"
    if "\<forall>l \<in> set links. well_formed l" for links
    using process_links_continue [OF that, of env cfg False c s] by simp
  have e: "\<exists>c' s'. process_entry env cfg False n i entry c s = (Inr c', s')
            \<and> (\<forall>rest. process_entries env cfg False n i (entry # rest) c s =
                  process_entries env cfg False n (i + 1) rest c' s')"
    if f: "find_link env cfg (entry ''sourceObjectId'') (entry ''targetObjectId'')
           (print (EntryLine i n (entry ''sourceObjectId'') (entry ''targetObjectId'')) s)
           = (Inr links, s1)"
      and w: "\<forall>l \<in> set links. well_formed l"
    for entry links s1 n i
  proof -
    from process_links_continue [OF w, of env cfg False c s1]
    obtain c1 s' where "process_links env cfg False links c s1 = (Inr c1, s')" by blast
    with f have "\<exists>c' s'. process_entry env cfg False n i entry c s = (Inr c', s')"
      by (simp add: process_entry_def Let_def)
    then show ?thesis by auto
  qed
  have ab: "(\<forall>e. r = Inl e \<longrightarrow>
            process_link env cfg False link c s =
              (Inr (c\<lparr>failed := failed c + 1\<rparr>), print (ErrorDeleting link_id e) s2)
            \<and> (\<forall>links. process_links env cfg False (link # links) c s =
                  process_links env cfg False links (c\<lparr>failed := failed c + 1\<rparr>)
                    (print (ErrorDeleting link_id e) s2)))
       \<and> (\<forall>d. r = Inr d \<longrightarrow>
            process_link env cfg False link c s =
              (Inr (c\<lparr>deleted := deleted c + 1\<rparr>), print (DeletedLink link_id) s2))"
    if "link ''_id'' = Some link_id" "link ''_rev'' = Some link_rev"
      "link ''firstId'' = Some f" "link ''secondId'' = Some sd"
      "api_delete env cfg (''/repo/link/'' @ link_id) link_rev (print (FoundLink link_id f sd) s)
         = (r, s2)"
    for link_id link_rev f sd r s2
  proof (cases r)
    case (Inl e')
    with a [OF that(1-4), of e' s2] that(5) show ?thesis by simp
  next
    case (Inr d')
    with b [OF that(1-4), of d' s2] that(5) show ?thesis by simp
  qed
  show ?thesis
  proof (intro conjI)
    show "\<forall>link_id link_rev f sd r s2.
       link ''_id'' = Some link_id \<longrightarrow> link ''_rev'' = Some link_rev \<longrightarrow>
       link ''firstId'' = Some f \<longrightarrow> link ''secondId'' = Some sd \<longrightarrow>
       api_delete env cfg (''/repo/link/'' @ link_id) link_rev (print (FoundLink link_id f sd) s)
         = (r, s2) \<longrightarrow>
         (\<forall>e. r = Inl e \<longrightarrow>
            process_link env cfg False link c s =
              (Inr (c\<lparr>failed := failed c + 1\<rparr>), print (ErrorDeleting link_id e) s2)
            \<and> (\<forall>links. process_links env cfg False (link # links) c s =
                  process_links env cfg False links (c\<lparr>failed := failed c + 1\<rparr>)
                    (print (ErrorDeleting link_id e) s2)))
       \<and> (\<forall>d. r = Inr d \<longrightarrow>
            process_link env cfg False link c s =
              (Inr (c\<lparr>deleted := deleted c + 1\<rparr>), print (DeletedLink link_id) s2))"
      using ab by (intro allI impI) 
  next
    show "\<forall>links. (\<forall>l \<in> set links. well_formed l) \<longrightarrow>
         (\<exists>c' s'. process_links env cfg False links c s = (Inr c', s')
            \<and> deleted c' + failed c' = deleted c + failed c + length links
            \<and> not_found c' = not_found c)"
      using l by (intro allI impI)
  next
    show "\<forall>entry links s1 n i.
         find_link env cfg (entry ''sourceObjectId'') (entry ''targetObjectId'')
           (print (EntryLine i n (entry ''sourceObjectId'') (entry ''targetObjectId'')) s)
           = (Inr links, s1) \<longrightarrow>
         (\<forall>l \<in> set links. well_formed l) \<longrightarrow>
         (\<exists>c' s'. process_entry env cfg False n i entry c s = (Inr c', s')
            \<and> (\<forall>rest. process_entries env cfg False n i (entry # rest) c s =
                  process_entries env cfg False n (i + 1) rest c' s'))"
      using e by (intro allI impI)
  qed
qed

lemma link_b_members:
  "link_b ''_id'' = Some ''L4''" "link_b ''_rev'' = Some ''2''"
  "link_b ''firstId'' = Some ''b''" "link_b ''secondId'' = Some ''w''"
  "link_b ''linkType'' = Some ''m''"
  by (simp_all add: link_b_def)

theorem delete_failure_counted_and_continues_witness:
  "fst (api_delete scripted (demo_cfg (-1)) (''/repo/link/'' @ ''L4'') ''2''
          (print (FoundLink ''L4'' ''b'' ''w'') (cached_state [Reply 412 no_members])))
     = Inl (HTTPError 412)
   \<and> fst (process_link scripted (demo_cfg (-1)) False link_b zero_counters
            (cached_state [Reply 412 no_members]))
       = Inr \<lparr>deleted = 0, failed = 1, not_found = 0\<rparr>
   \<and> well_formed link_b \<and> well_formed link_a
   \<and> (\<exists>c' s'. process_links scripted (demo_cfg (-1)) False [link_b, link_a] zero_counters
                 (cached_state [Reply 412 no_members, Reply 200 no_members]) = (Inr c', s')
          \<and> deleted c' + failed c' = 2)
   \<and> run_result scripted (demo_cfg (-1)) failing_delete_script
       = Some (Inr (Finished \<lparr>total_entries = 3, sampled = None, links_deleted = 2,
                                links_not_found = 0, failures = 1, dry_run_note = False\<rparr>))"
proof -
  let ?cfg = "demo_cfg (-1)"
  let ?s = "cached_state [Reply 412 no_members]"
  let ?d = "api_delete scripted ?cfg (''/repo/link/'' @ ''L4'') ''2''
              (print (FoundLink ''L4'' ''b'' ''w'') ?s)"
  have f: "fst ?d = Inl (HTTPError 412)"
    by (simp add: run_defs cached_state_def)
  then have d: "?d = (Inl (HTTPError 412), snd ?d)" by (metis prod.collapse)
  note c9 = delete_failure_counted_and_continues
  from c9 [of link_b scripted ?cfg ?s zero_counters] link_b_members d
  have "process_link scripted ?cfg False link_b zero_counters ?s =
          (Inr (zero_counters\<lparr>failed := failed zero_counters + 1\<rparr>),
           print (ErrorDeleting ''L4'' (HTTPError 412)) (snd ?d))"
    by blast
  then have p: "fst (process_link scripted ?cfg False link_b zero_counters ?s)
       = Inr \<lparr>deleted = 0, failed = 1, not_found = 0\<rparr>"
    by (simp add: zero_counters_def)
  have wf: "well_formed link_b" "well_formed link_a"
    by (simp_all add: well_formed_def link_b_def link_a_def)
  then have w: "\<forall>l \<in> set [link_b, link_a]. well_formed l" by simp
  from c9 [of link_b scripted ?cfg "cached_state [Reply 412 no_members, Reply 200 no_members]"
      zero_counters] w
  have "\<exists>c' s'. process_links scripted ?cfg False [link_b, link_a] zero_counters
                 (cached_state [Reply 412 no_members, Reply 200 no_members]) = (Inr c', s')
          \<and> deleted c' + failed c' = deleted zero_counters + failed zero_counters
               + length [link_b, link_a]"
    by blast
  then obtain c' s' where pl: "process_links scripted ?cfg False [link_b, link_a] zero_counters
                 (cached_state [Reply 412 no_members, Reply 200 no_members]) = (Inr c', s')"
      and sm: "deleted c' + failed c' = deleted zero_counters + failed zero_counters
               + length [link_b, link_a]"
    by blast
  have "deleted zero_counters + failed zero_counters + length [link_b, link_a] = 2"
    by (simp add: zero_counters_def)
  with sm have "deleted c' + failed c' = 2" by (simp only:)
  with pl have l: "\<exists>c' s'. process_links scripted ?cfg False [link_b, link_a] zero_counters
                 (cached_state [Reply 412 no_members, Reply 200 no_members]) = (Inr c', s')
          \<and> deleted c' + failed c' = 2"
    by blast
  have m: "run_result scripted ?cfg failing_delete_script
       = Some (Inr (Finished \<lparr>total_entries = 3, sampled = None, links_deleted = 2,
                                links_not_found = 0, failures = 1, dry_run_note = False\<rparr>))"
    by code_simp
  from f p wf l m show ?thesis by blast
qed

section \<open>A run up to its delete step\<close>

lemma quiet_setup: "quiet e \<Longrightarrow> setup_event e"
  by (auto simp: quiet_def)

lemma page_line_setup: "is_page_line e \<Longrightarrow> setup_event e"
  by (cases e) simp_all

lemma api_get_no_delete:
  "api_get env cfg path ps s = (r, s') \<Longrightarrow> extends no_delete quiet s s'"
  using api_get_extends unfolding no_delete_def .

lemma find_latest_recon_extends:
  assumes "find_latest_recon env cfg s = (r, s')"
  shows "extends no_delete setup_event s s'"
proof -
  obtain r1 s1 where g: "api_get env cfg ''/recon'' [] s = (r1, s1)" by force
  have e1: "extends no_delete setup_event s s1"
    using api_get_no_delete [OF g] by (rule extends_mono) (simp_all add: quiet_setup)
  have "s' = s1 \<or> s' = print (NoReconFound (mapping_name cfg)) s1"
    using assms g
    by (auto simp: find_latest_recon_def Let_def split: sum.splits list.splits if_splits)
  moreover have "extends no_delete setup_event s1 (print (NoReconFound (mapping_name cfg)) s1)"
    by (rule extends_print) simp
  ultimately have "extends no_delete setup_event s1 s'"
    by (auto intro: extends_refl)
  with e1 show ?thesis by (rule extends_trans)
qed

lemma entries_loop_extends:
  assumes "entries_loop env0 cfg0 rid0 entries0 cookie0 page0 s0 = Some y0"
  shows "extends (\<lambda>q. meth q = POST \<or> page_request cfg0 rid0 q) is_page_line s0 (snd y0)"
proof (rule entries_loop.raw_induct
    [where P = "\<lambda>env cfg recon_id entries cookie page s y.
        extends (\<lambda>q. meth q = POST \<or> page_request cfg recon_id q) is_page_line s (snd y)",
     OF _ assms], goal_cases)
  case (1 loop env cfg recon_id entries cookie page s y)
  obtain r1 s1 where g: "api_get env cfg (entry_path recon_id) (page_params cookie) s = (r1, s1)"
    by force
  let ?Q = "\<lambda>q. meth q = POST \<or> page_request cfg recon_id q"
  have e0: "extends ?Q is_page_line s s1"
    using api_get_issued [OF g]
    by (rule extends_mono)
      (auto simp: issued_def page_request_mk quiet_def)
  show ?case
  proof (cases r1)
    case (Inl e)
    with 1(2) g have "snd y = s1" by auto
    with e0 show ?thesis by simp
  next
    case (Inr d)
    show ?thesis
    proof (cases d)
      case None
      with 1(2) g Inr have "snd y = s1" by auto
      with e0 show ?thesis by simp
    next
      case (Some data)
      let ?s2 = "print (FetchedPage (page + 1) (length (get_result data))) s1"
      have e2: "extends ?Q is_page_line s ?s2"
        using g by (rule page_get_extends)
      show ?thesis
      proof (cases "falsy (pagedResultsCookie data) \<or> length (get_result data) = 0")
        case True
        with 1(2) g Inr Some have "snd y = ?s2" by (auto simp: Let_def)
        with e2 show ?thesis by simp
      next
        case False
        with 1(2) g Inr Some
        have "loop env cfg recon_id (entries @ get_result data) (pagedResultsCookie data)
                (page + 1) ?s2 = Some y"
          by (auto simp: Let_def)
        from 1(1) [OF this] e2 show ?thesis by (blast intro: extends_trans)
      qed
    qed
  qed
qed

lemma get_entries_extends:
  assumes "get_found_already_linked_entries env cfg recon_id s = Some (r, s')"
  shows "extends no_delete setup_event s s'"
proof -
  from assms have "entries_loop env cfg recon_id [] None 0 s = Some (r, s')"
    by (simp add: get_found_already_linked_entries_def)
  from entries_loop_extends [OF this]
  have "extends (\<lambda>q. meth q = POST \<or> page_request cfg recon_id q) is_page_line s s'"
    by simp
  then show ?thesis
    by (rule extends_mono) (auto simp: no_delete_def page_request_def page_line_setup)
qed

text \<open>
  Every finished call of \<open>main\<close> either stopped before step 4, having sent no delete
  and printed no loop line, or is step 4 run on the fetched entries from such a state.
\<close>

lemma main_cases:
  assumes "main env cfg w = Some (r, s')"
  shows "(extends no_delete setup_event (init_state w) s' \<and> (\<forall>sm. r \<noteq> Inr (Finished sm)))
       \<or> (\<exists>entries s5. extends no_delete setup_event (init_state w) s5 \<and> entries \<noteq> []
             \<and> delete_step env cfg entries s5 = (r, s'))"
proof -
  let ?E = "extends no_delete setup_event"
  let ?s0 = "print (Banner (tenant_host cfg) (mapping_name cfg) (run_mode_of (sample_size cfg)))
               (init_state w)"
  have p: "?E a (print e a)" if "setup_event e" for e and a :: "'a state"
    using that by (rule extends_print)
  have e0: "?E (init_state w) ?s0" by (rule p) simp
  obtain r1 s1 where f: "find_latest_recon env cfg ?s0 = (r1, s1)" by force
  have e1: "?E (init_state w) s1"
    using e0 find_latest_recon_extends [OF f] by (rule extends_trans)
  show ?thesis
  proof (cases r1)
    case (Inl e)
    with assms f have "r = Inl e" "s' = s1" by (simp_all add: main_def Let_def)
    with e1 show ?thesis by auto
  next
    case (Inr recon)
    show ?thesis
    proof (cases "members recon ''_id''")
      case None
      with assms f Inr have "r = Inl (KeyError ''_id'')" "s' = s1"
        by (simp_all add: main_def Let_def)
      with e1 show ?thesis by auto
    next
      case (Some recon_id)
      let ?s2 = "print (ReconIdLine recon_id) s1"
      have e2: "?E (init_state w) ?s2"
        using e1 p [of "ReconIdLine recon_id" s1] by (auto intro: extends_trans)
      show ?thesis
      proof (cases "members recon ''state''")
        case None
        with assms f Inr Some have "r = Inl (KeyError ''state'')" "s' = ?s2"
          by (simp_all add: main_def Let_def)
        with e2 show ?thesis by auto
      next
        case st: (Some st)
        let ?s3 = "print (ReconCountLine (fal_count_of recon))
                     (print (ReconStartedLine (members recon ''started''))
                       (print (ReconStateLine st) ?s2))"
        have e3: "?E (init_state w) ?s3"
          using e2 p [of "ReconStateLine st" ?s2]
            p [of "ReconStartedLine (members recon ''started'')" "print (ReconStateLine st) ?s2"]
            p [of "ReconCountLine (fal_count_of recon)"
                "print (ReconStartedLine (members recon ''started'')) (print (ReconStateLine st) ?s2)"]
          by (auto intro: extends_trans)
        show ?thesis
        proof (cases "fal_count_of recon = 0")
          case True
          with assms f Inr Some st have "r = Inr Nothing_To_Do" "s' = print NothingToDo ?s3"
            by (simp_all add: main_def Let_def)
          moreover have "?E (init_state w) (print NothingToDo ?s3)"
            using e3 p [of NothingToDo ?s3] by (auto intro: extends_trans)
          ultimately show ?thesis by auto
        next
          case False
          with assms f Inr Some st
          obtain r4 s4 where g: "get_found_already_linked_entries env cfg recon_id ?s3
                                   = Some (r4, s4)"
            by (cases "get_found_already_linked_entries env cfg recon_id ?s3")
              (auto simp: main_def Let_def)
          have e4: "?E (init_state w) s4"
            using e3 get_entries_extends [OF g] by (rule extends_trans)
          show ?thesis
          proof (cases r4)
            case (Inl e)
            with assms f Inr Some st False g have "r = Inl e" "s' = s4"
              by (simp_all add: main_def Let_def)
            with e4 show ?thesis by auto
          next
            case es: (Inr entries)
            let ?s5 = "print (TotalEntries (length entries)) s4"
            have e5: "?E (init_state w) ?s5"
              using e4 p [of "TotalEntries (length entries)" s4] by (auto intro: extends_trans)
            show ?thesis
            proof (cases "entries = []")
              case True
              with assms f Inr Some st False g es
              have "r = Inr No_Entries" "s' = print NoEntriesFound ?s5"
                by (simp_all add: main_def Let_def)
              moreover have "?E (init_state w) (print NoEntriesFound ?s5)"
                using e5 p [of NoEntriesFound ?s5] by (auto intro: extends_trans)
              ultimately show ?thesis by auto
            next
              case ne: False
              with assms f Inr Some st False g es
              have "delete_step env cfg entries ?s5 = (r, s')"
                by (simp add: main_def Let_def)
              with e5 ne show ?thesis by blast
            qed
          qed
        qed
      qed
    qed
  qed
qed

section \<open>Dry run: nothing is deleted\<close>

lemma extends_any: "extends Q E s s' \<Longrightarrow> extends Q (\<lambda>_. True) s s'"
  by (erule extends_mono) simp_all

lemma extends_warnings:
  assumes "extends Q E s s'" and "\<And>e. E e \<Longrightarrow> \<not> is_warning e"
  shows "filter is_warning (out s') = filter is_warning (out s)"
proof -
  from assms(1) obtain evs where "out s' = out s @ evs" "\<forall>e \<in> set evs. E e"
    unfolding extends_def by blast
  moreover then have "filter is_warning evs = []"
    using assms(2) by (auto simp: filter_empty_conv)
  ultimately show ?thesis by simp
qed

lemma link_event_not_warning: "link_event e \<Longrightarrow> \<not> is_warning e"
  by (cases e) simp_all

lemma process_link_dry_frame:
  "process_link env cfg True link c s = (r, s') \<Longrightarrow>
   trace s' = trace s \<and> (\<forall>c'. r = Inr c' \<longrightarrow> c' = c)"
  by (auto simp: process_link_def print_def split: option.splits)

lemma process_links_dry_frame:
  "process_links env cfg True links c s = (r, s') \<Longrightarrow>
   trace s' = trace s \<and> (\<forall>c'. r = Inr c' \<longrightarrow> c' = c)"
proof (induction links arbitrary: c s)
  case Nil
  then show ?case by auto
next
  case (Cons l links)
  obtain r1 s1 where p: "process_link env cfg True l c s = (r1, s1)" by force
  note f1 = process_link_dry_frame [OF p]
  show ?case
  proof (cases r1)
    case (Inl e)
    with Cons.prems p f1 show ?thesis by simp
  next
    case (Inr c1)
    with f1 have "c1 = c" by simp
    with Cons.prems p Inr have "process_links env cfg True links c s1 = (r, s')" by simp
    from Cons.IH [OF this] f1 show ?thesis by simp
  qed
qed

lemma process_links_dry_listing:
  "\<forall>l \<in> set links. well_formed l \<Longrightarrow>
   process_links env cfg True links c s =
     (Inr c, s\<lparr>out := out s @ concat (map dry_lines links)\<rparr>)"
proof (induction links arbitrary: s)
  case Nil
  then show ?case by simp
next
  case (Cons l links)
  then have "well_formed l" by simp
  then obtain i rv f sd where k: "l ''_id'' = Some i" "l ''_rev'' = Some rv"
    "l ''firstId'' = Some f" "l ''secondId'' = Some sd"
    by (auto simp: well_formed_def)
  have p: "process_link env cfg True l c s =
      (Inr c, s\<lparr>out := out s @ dry_lines l\<rparr>)"
    using process_link_dry [OF k, of env cfg c s] k by (simp add: dry_lines_def print_def)
  from Cons.prems have "\<forall>l \<in> set links. well_formed l" by simp
  from Cons.IH [OF this, of "s\<lparr>out := out s @ dry_lines l\<rparr>"] p
  show ?case by simp
qed

lemma process_entry_dry_frame:
  assumes "process_entry env cfg True n i entry c s = (r, s')"
  shows "extends no_delete (\<lambda>_. True) s s'
       \<and> (\<forall>c'. r = Inr c' \<longrightarrow> deleted c' = deleted c \<and> failed c' = failed c
             \<and> not_found c' + length (filter is_warning (out s))
                 = not_found c + length (filter is_warning (out s')))"
proof -
  let ?s1 = "print (EntryLine i n (entry ''sourceObjectId'') (entry ''targetObjectId'')) s"
  have e1: "extends no_delete (\<lambda>_. True) s ?s1" by (rule extends_print) simp
  have w1: "filter is_warning (out ?s1) = filter is_warning (out s)"
    by (simp add: print_def)
  obtain r2 s2 where f: "find_link env cfg (entry ''sourceObjectId'') (entry ''targetObjectId'') ?s1
      = (r2, s2)" by force
  have e2: "extends no_delete (\<lambda>_. True) ?s1 s2"
    using find_link_extends [OF f] by (rule extends_mono) (simp_all add: no_delete_def)
  have w2: "filter is_warning (out s2) = filter is_warning (out ?s1)"
    using find_link_extends [OF f] by (rule extends_warnings) (auto simp: quiet_def)
  show ?thesis
  proof (cases r2)
    case (Inl e)
    with assms f have k: "r = Inl e" "s' = s2" by (simp_all add: process_entry_def Let_def)
    have "extends no_delete (\<lambda>_. True) s s'"
      unfolding k using e1 e2 by (rule extends_trans)
    with k show ?thesis by simp
  next
    case (Inr links)
    show ?thesis
    proof (cases "links = []")
      case True
      with assms f Inr have k: "r = Inr (c\<lparr>not_found := not_found c + 1\<rparr>)"
        "s' = print (WarnNoLink (mapping_name cfg)) s2"
        by (simp_all add: process_entry_def Let_def)
      have e3: "extends no_delete (\<lambda>_. True) s2 s'" unfolding k by (rule extends_print) simp
      have "extends no_delete (\<lambda>_. True) s s'"
        by (rule extends_trans [OF extends_trans [OF e1 e2] e3])
      moreover have "length (filter is_warning (out s'))
                       = Suc (length (filter is_warning (out s)))"
        using w1 w2 by (simp add: k print_def)
      ultimately show ?thesis using k by simp
    next
      case False
      with assms f Inr have p: "process_links env cfg True links c s2 = (r, s')"
        by (simp add: process_entry_def Let_def)
      note fr = process_links_dry_frame [OF p]
      from process_links_extends [OF p] obtain evs where "out s' = out s2 @ evs"
        unfolding extends_def by blast
      with fr have e3: "extends no_delete (\<lambda>_. True) s2 s'"
        unfolding extends_def by simp
      have ex: "extends no_delete (\<lambda>_. True) s s'"
        by (rule extends_trans [OF extends_trans [OF e1 e2] e3])
      have "filter is_warning (out s') = filter is_warning (out s2)"
        using process_links_extends [OF p]
        by (rule extends_warnings) (rule link_event_not_warning)
      with w1 w2 have "filter is_warning (out s') = filter is_warning (out s)" by simp
      with ex fr show ?thesis by simp
    qed
  qed
qed

lemma process_entries_dry_frame:
  "process_entries env cfg True n i es c s = (r, s') \<Longrightarrow>
   extends no_delete (\<lambda>_. True) s s'
   \<and> (\<forall>c'. r = Inr c' \<longrightarrow> deleted c' = deleted c \<and> failed c' = failed c
         \<and> not_found c' + length (filter is_warning (out s))
             = not_found c + length (filter is_warning (out s')))"
proof (induction es arbitrary: i c s)
  case Nil
  then have "r = Inr c" "s' = s" by simp_all
  then show ?case by (simp add: extends_refl)
next
  case (Cons e es)
  obtain r1 s1 where p: "process_entry env cfg True n i e c s = (r1, s1)" by force
  note f1 = process_entry_dry_frame [OF p]
  show ?case
  proof (cases r1)
    case (Inl err)
    with Cons.prems p have k: "r = Inl err" "s' = s1" by simp_all
    from conjunct1 [OF f1] show ?thesis by (simp add: k)
  next
    case (Inr c1)
    with Cons.prems p have q: "process_entries env cfg True n (i + 1) es c1 s1 = (r, s')"
      by simp
    note f2 = Cons.IH [OF q]
    have ex: "extends no_delete (\<lambda>_. True) s s'"
      by (rule extends_trans [OF conjunct1 [OF f1] conjunct1 [OF f2]])
    from conjunct2 [OF f1] Inr
    have a: "deleted c1 = deleted c" "failed c1 = failed c"
      "not_found c1 + length (filter is_warning (out s))
         = not_found c + length (filter is_warning (out s1))"
      by simp_all
    have "deleted c' = deleted c \<and> failed c' = failed c
         \<and> not_found c' + length (filter is_warning (out s))
             = not_found c + length (filter is_warning (out s'))"
      if rr: "r = Inr c'" for c'
    proof -
      from conjunct2 [OF f2] rr
      have b: "deleted c' = deleted c1" "failed c' = failed c1"
        "not_found c' + length (filter is_warning (out s1))
           = not_found c1 + length (filter is_warning (out s'))"
        by simp_all
      from a(3) b(3)
      have "not_found c' + length (filter is_warning (out s))
             = not_found c + length (filter is_warning (out s'))"
        by arith
      with a(1,2) b(1,2) show ?thesis by simp
    qed
    with ex show ?thesis by blast
  qed
qed

lemma delete_step_dry_frame:
  assumes "sample_size cfg = 0" and "delete_step env cfg entries s = (r, s')"
  shows "extends no_delete (\<lambda>_. True) s s'
       \<and> (\<forall>sm. r = Inr (Finished sm) \<longrightarrow> links_deleted sm = 0 \<and> failures sm = 0
             \<and> links_not_found sm + length (filter is_warning (out s))
                 = length (filter is_warning (out s')))"
proof -
  let ?s1 = "announce_mode 0 entries s"
  have s1: "?s1 = print (DryRunMode (length entries)) s" by (simp add: announce_mode_def)
  have e1: "extends no_delete (\<lambda>_. True) s ?s1" unfolding s1 by (rule extends_print) simp
  have w1: "filter is_warning (out ?s1) = filter is_warning (out s)"
    by (simp add: s1 print_def)
  obtain r2 s2 where p: "process_entries env cfg True (length entries) 1 entries zero_counters ?s1
      = (r2, s2)" by force
  note f = process_entries_dry_frame [OF p]
  show ?thesis
  proof (cases r2)
    case (Inl e)
    with assms p have k: "r = Inl e" "s' = s2"
      by (simp_all add: delete_step_def Let_def to_process_zero)
    have "extends no_delete (\<lambda>_. True) s s'"
      unfolding k by (rule extends_trans [OF e1 conjunct1 [OF f]])
    with k show ?thesis by simp
  next
    case (Inr c)
    let ?sm = "\<lparr>total_entries = length entries, sampled = None, links_deleted = deleted c,
                links_not_found = not_found c, failures = failed c, dry_run_note = True\<rparr>"
    from assms p Inr have k: "r = Inr (Finished ?sm)" "s' = print (SummaryLines ?sm) s2"
      by (simp_all add: delete_step_def Let_def to_process_zero)
    have e3: "extends no_delete (\<lambda>_. True) s2 s'" unfolding k by (rule extends_print) simp
    have ex: "extends no_delete (\<lambda>_. True) s s'"
      by (rule extends_trans [OF extends_trans [OF e1 conjunct1 [OF f]] e3])
    from f Inr have c: "deleted c = 0" "failed c = 0"
      "not_found c + length (filter is_warning (out ?s1)) = length (filter is_warning (out s2))"
      by (simp_all add: zero_counters_def)
    have "length (filter is_warning (out s')) = length (filter is_warning (out s2))"
      by (simp add: k print_def)
    with ex c w1 k show ?thesis by simp
  qed
qed

lemma init_trace: "trace (init_state w) = []" and init_out: "out (init_state w) = []"
  by (simp_all add: init_state_def)

lemma extends_from_init:
  assumes "extends no_delete E (init_state w) s"
  shows "\<forall>x \<in> set (trace s). meth (fst x) \<noteq> DELETE"
  using assms unfolding extends_def no_delete_def by (auto simp: init_trace)

lemma setup_from_init:
  assumes "extends Q setup_event (init_state w) s"
  shows "filter is_warning (out s) = [] \<and> filter is_entry_line (out s) = []"
proof -
  from assms obtain evs where "out s = evs" "\<forall>e \<in> set evs. setup_event e"
    unfolding extends_def by (auto simp: init_out)
  moreover have "\<not> is_warning e \<and> \<not> is_entry_line e" if "setup_event e" for e
    using that by (cases e) simp_all
  ultimately show ?thesis by (auto simp: filter_empty_conv)
qed

lemma process_entry_dry_listing:
  assumes "find_link env cfg (entry ''sourceObjectId'') (entry ''targetObjectId'')
             (print (EntryLine i n (entry ''sourceObjectId'') (entry ''targetObjectId'')) s)
           = (Inr links, s1)"
    and "\<forall>l \<in> set links. well_formed l"
  shows "process_entry env cfg True n i entry c s =
           (if links = [] then
              (Inr (c\<lparr>not_found := not_found c + 1\<rparr>), print (WarnNoLink (mapping_name cfg)) s1)
            else (Inr c, s1\<lparr>out := out s1 @ concat (map dry_lines links)\<rparr>))"
  using assms(1) process_links_dry_listing [OF assms(2), of env cfg c s1]
  by (simp add: process_entry_def Let_def)

text \<open>
  Claim C2.  With sample size 0:
  \<^item> whatever way a run of \<open>main\<close> ends, none of the requests it has sent is a
    \<open>DELETE\<close>;
  \<^item> a run that reaches its summary reports no deleted link and no failure, the dry-run
    note, as total the number of entries it went through (one entry line each) and as
    "not found" the number of warnings it printed;
  \<^item> for each entry the links are resolved by \<open>find_link\<close> as in a real run: an empty
    result prints the warning and counts one "not found", a non-empty one lists each
    resolved link ("Found link", "Would delete") and changes nothing but the output.
\<close>

theorem dry_run_never_deletes:
  assumes "sample_size cfg = 0"
  shows "(\<forall>r s'. main env cfg w = Some (r, s') \<longrightarrow>
            (\<forall>x \<in> set (trace s'). meth (fst x) \<noteq> DELETE)
            \<and> (\<forall>sm. r = Inr (Finished sm) \<longrightarrow>
                  links_deleted sm = 0 \<and> failures sm = 0 \<and> dry_run_note sm
                  \<and> links_not_found sm = length (filter is_warning (out s'))
                  \<and> total_entries sm = length (filter is_entry_line (out s'))))
       \<and> (\<forall>entry n i c s links s1.
            find_link env cfg (entry ''sourceObjectId'') (entry ''targetObjectId'')
              (print (EntryLine i n (entry ''sourceObjectId'') (entry ''targetObjectId'')) s)
              = (Inr links, s1) \<longrightarrow>
            (\<forall>l \<in> set links. well_formed l) \<longrightarrow>
            process_entry env cfg (sample_size cfg = 0) n i entry c s =
              (if links = [] then
                 (Inr (c\<lparr>not_found := not_found c + 1\<rparr>),
                  print (WarnNoLink (mapping_name cfg)) s1)
               else (Inr c, s1\<lparr>out := out s1 @ concat (map dry_lines links)\<rparr>)))"
proof -
  have a: "(\<forall>x \<in> set (trace s'). meth (fst x) \<noteq> DELETE)
            \<and> (\<forall>sm. r = Inr (Finished sm) \<longrightarrow>
                  links_deleted sm = 0 \<and> failures sm = 0 \<and> dry_run_note sm
                  \<and> links_not_found sm = length (filter is_warning (out s'))
                  \<and> total_entries sm = length (filter is_entry_line (out s')))"
    if m: "main env cfg w = Some (r, s')" for r s'
    using main_cases [OF m]
  proof (elim disjE conjE exE)
    assume "extends no_delete setup_event (init_state w) s'" "\<forall>sm. r \<noteq> Inr (Finished sm)"
    then show ?thesis by (auto dest: extends_from_init)
  next
    fix entries s5
    assume e5: "extends no_delete setup_event (init_state w) s5"
      and d: "delete_step env cfg entries s5 = (r, s')"
    note fr = delete_step_dry_frame [OF assms d]
    from e5 have "extends no_delete (\<lambda>_. True) (init_state w) s5" by (rule extends_any)
    then have "extends no_delete (\<lambda>_. True) (init_state w) s'"
      using conjunct1 [OF fr] by (rule extends_trans)
    then have t: "\<forall>x \<in> set (trace s'). meth (fst x) \<noteq> DELETE" by (rule extends_from_init)
    note z = setup_from_init [OF e5]
    have "links_deleted sm = 0 \<and> failures sm = 0 \<and> dry_run_note sm
                  \<and> links_not_found sm = length (filter is_warning (out s'))
                  \<and> total_entries sm = length (filter is_entry_line (out s'))"
      if r: "r = Inr (Finished sm)" for sm
    proof -
      from d r have d': "delete_step env cfg entries s5 = (Inr (Finished sm), s')" by simp
      from delete_step_summary [OF d'] assms
      have "total_entries sm = length entries" "dry_run_note sm" by auto
      moreover have "length (filter is_entry_line (out s')) = length entries"
      proof -
        have "length (map (entry_line (length entries))
                (zip [1 ..< 1 + length entries] entries)) = length entries"
          by (simp only: length_map length_zip length_upt)
        with delete_step_entry_lines [OF d'] z assms show ?thesis
          by (simp only: to_process_zero append_Nil)
      qed
      moreover from fr r z
      have "links_deleted sm = 0" "failures sm = 0"
        "links_not_found sm = length (filter is_warning (out s'))" by auto
      ultimately show ?thesis by simp
    qed
    with t show ?thesis by blast
  qed
  have b: "process_entry env cfg (sample_size cfg = 0) n i entry c s =
              (if links = [] then
                 (Inr (c\<lparr>not_found := not_found c + 1\<rparr>),
                  print (WarnNoLink (mapping_name cfg)) s1)
               else (Inr c, s1\<lparr>out := out s1 @ concat (map dry_lines links)\<rparr>))"
    if "find_link env cfg (entry ''sourceObjectId'') (entry ''targetObjectId'')
              (print (EntryLine i n (entry ''sourceObjectId'') (entry ''targetObjectId'')) s)
              = (Inr links, s1)"
      and "\<forall>l \<in> set links. well_formed l"
    for entry n i c s links s1
    using process_entry_dry_listing [OF that] assms by simp
  show ?thesis
  proof (intro conjI)
    show "\<forall>r s'. main env cfg w = Some (r, s') \<longrightarrow>
            (\<forall>x \<in> set (trace s'). meth (fst x) \<noteq> DELETE)
            \<and> (\<forall>sm. r = Inr (Finished sm) \<longrightarrow>
                  links_deleted sm = 0 \<and> failures sm = 0 \<and> dry_run_note sm
                  \<and> links_not_found sm = length (filter is_warning (out s'))
                  \<and> total_entries sm = length (filter is_entry_line (out s')))"
      using a by (intro allI impI)
  next
    show "\<forall>entry n i c s links s1.
            find_link env cfg (entry ''sourceObjectId'') (entry ''targetObjectId'')
              (print (EntryLine i n (entry ''sourceObjectId'') (entry ''targetObjectId'')) s)
              = (Inr links, s1) \<longrightarrow>
            (\<forall>l \<in> set links. well_formed l) \<longrightarrow>
            process_entry env cfg (sample_size cfg = 0) n i entry c s =
              (if links = [] then
                 (Inr (c\<lparr>not_found := not_found c + 1\<rparr>),
                  print (WarnNoLink (mapping_name cfg)) s1)
               else (Inr c, s1\<lparr>out := out s1 @ concat (map dry_lines links)\<rparr>))"
      using b by (intro allI impI)
  qed
qed

theorem dry_run_never_deletes_witness:
  "sample_size (demo_cfg 0) = 0
   \<and> (\<exists>r s'. main scripted (demo_cfg 0) dry_script = Some (r, s'))
   \<and> filter (\<lambda>x. meth (fst x) = DELETE) (run_trace scripted (demo_cfg 0) dry_script) = []
   \<and> run_result scripted (demo_cfg 0) dry_script
       = Some (Inr (Finished \<lparr>total_entries = 1, sampled = None, links_deleted = 0,
                                links_not_found = 0, failures = 0, dry_run_note = True\<rparr>))
   \<and> filter (\<lambda>e. \<not> setup_event e) (run_out scripted (demo_cfg 0) dry_script)
       = [EntryLine 1 1 (Some ''a'') None, FoundLink ''L1'' ''a'' ''x'', WouldDelete ''L1'',
          SummaryLines \<lparr>total_entries = 1, sampled = None, links_deleted = 0,
                         links_not_found = 0, failures = 0, dry_run_note = True\<rparr>]"
proof -
  have h: "sample_size (demo_cfg 0) = 0" by (simp add: demo_cfg_def)
  have "case main scripted (demo_cfg 0) dry_script of None \<Rightarrow> False | Some _ \<Rightarrow> True"
    by code_simp
  then obtain r s' where m: "main scripted (demo_cfg 0) dry_script = Some (r, s')"
    by (cases "main scripted (demo_cfg 0) dry_script") auto
  from dry_run_never_deletes [OF h, of scripted dry_script] m
  have "\<forall>x \<in> set (trace s'). meth (fst x) \<noteq> DELETE" by blast
  then have t: "filter (\<lambda>x. meth (fst x) = DELETE)
                  (run_trace scripted (demo_cfg 0) dry_script) = []"
    by (simp add: run_trace_def m filter_empty_conv)
  have res: "run_result scripted (demo_cfg 0) dry_script
       = Some (Inr (Finished \<lparr>total_entries = 1, sampled = None, links_deleted = 0,
                                links_not_found = 0, failures = 0, dry_run_note = True\<rparr>))"
    by code_simp
  have o: "filter (\<lambda>e. \<not> setup_event e) (run_out scripted (demo_cfg 0) dry_script)
       = [EntryLine 1 1 (Some ''a'') None, FoundLink ''L1'' ''a'' ''x'', WouldDelete ''L1'',
          SummaryLines \<lparr>total_entries = 1, sampled = None, links_deleted = 0,
                         links_not_found = 0, failures = 0, dry_run_note = True\<rparr>]"
    by code_simp
  from h m t res o show ?thesis by blast
qed

section \<open>Dry run: every entry is resolved\<close>

lemma api_get_link_query:
  assumes "api_get env cfg ''/repo/link'' ps s = (r, s')"
  shows "extends (is_link_query cfg) quiet s s'"
  using api_get_issued [OF assms]
  by (rule extends_mono) (auto simp: issued_def mk_request_def BASE_URL_def is_link_query_def)

lemma query_fields_link_query:
  "query_fields env cfg sid flds cands s = (r, s') \<Longrightarrow> extends (is_link_query cfg) quiet s s'"
proof (induction flds arbitrary: cands s)
  case Nil
  then show ?case by (simp add: extends_refl)
next
  case (Cons f flds)
  obtain r1 s1 where g: "api_get env cfg ''/repo/link'' (link_filter f sid) s = (r1, s1)"
    by force
  note e1 = api_get_link_query [OF g]
  show ?case
  proof (cases r1)
    case (Inl e)
    with Cons.prems g e1 show ?thesis by simp
  next
    case (Inr d)
    show ?thesis
    proof (cases d)
      case None
      with Cons.prems g e1 Inr show ?thesis by simp
    next
      case (Some data)
      with Cons.prems g Inr
      have "query_fields env cfg sid flds (cands @ get_result data) s1 = (r, s')" by simp
      from e1 Cons.IH [OF this] show ?thesis by (rule extends_trans)
    qed
  qed
qed

lemma query_ids_link_query:
  "query_ids env cfg ids cands s = (r, s') \<Longrightarrow> extends (is_link_query cfg) quiet s s'"
proof (induction ids arbitrary: cands s)
  case Nil
  then show ?case by (simp add: extends_refl)
next
  case (Cons i ids)
  obtain r1 s1 where g: "query_fields env cfg i [''firstId'', ''secondId''] cands s = (r1, s1)"
    by force
  note e1 = query_fields_link_query [OF g]
  show ?case
  proof (cases r1)
    case (Inl e)
    with Cons.prems g e1 show ?thesis by simp
  next
    case (Inr c')
    with Cons.prems g have "query_ids env cfg ids c' s1 = (r, s')" by simp
    from e1 Cons.IH [OF this] show ?thesis by (rule extends_trans)
  qed
qed

lemma find_link_link_query:
  assumes "find_link env cfg a b s = (r, s')"
  shows "extends (is_link_query cfg) (\<lambda>_. True) s s'"
proof -
  obtain r1 s1 where g: "query_ids env cfg (search_ids env a b) [] s = (r1, s1)" by force
  have "s' = s1"
    using assms g by (auto simp: find_link_def split: sum.splits)
  with query_ids_link_query [OF g] show ?thesis by (simp add: extends_any)
qed

lemma extends_out: "extends Q (\<lambda>_. True) s (s\<lparr>out := out s @ evs\<rparr>)"
  by (simp add: extends_def)

lemma process_links_dry_list:
  "process_links env cfg True links c s =
     (case list_links links of
        (evs, Some e) \<Rightarrow> (Inl e, s\<lparr>out := out s @ evs\<rparr>)
      | (evs, None) \<Rightarrow> (Inr c, s\<lparr>out := out s @ evs\<rparr>))"
proof (induction links arbitrary: s)
  case Nil
  then show ?case by simp
next
  case (Cons l links)
  show ?case
    by (simp add: process_link_def print_def Cons.IH split: option.splits prod.splits)
qed

lemma process_entries_resolve_only:
  "process_entries env cfg True n i es c s = resolve_only env cfg n i es c s"
proof (induction es arbitrary: i c s)
  case Nil
  then show ?case by simp
next
  case (Cons e es)
  show ?case
    by (simp add: process_entry_def Let_def process_links_dry_list Cons.IH
        split: prod.splits sum.splits option.splits)
qed

lemma resolve_only_counters:
  assumes "resolve_only env cfg n i es c s = (Inr c', s')"
  shows "deleted c' = deleted c \<and> failed c' = failed c"
proof -
  from assms have "process_entries env cfg True n i es c s = (Inr c', s')"
    by (simp only: process_entries_resolve_only)
  from conjunct2 [OF process_entries_dry_frame [OF this], rule_format, OF refl]
  show ?thesis by simp
qed

lemma resolve_only_step:
  assumes "find_link env cfg (e ''sourceObjectId'') (e ''targetObjectId'')
             (print (EntryLine i n (e ''sourceObjectId'') (e ''targetObjectId'')) s) = (r1, s1)"
  shows "resolve_only env cfg n i (e # es) c s =
     (case r1 of
        Inl err \<Rightarrow> (Inl err, s1)
      | Inr links \<Rightarrow>
          if links = [] then
            resolve_only env cfg n (i + 1) es (c\<lparr>not_found := not_found c + 1\<rparr>)
              (print (WarnNoLink (mapping_name cfg)) s1)
          else
            (case list_links links of
               (evs, Some err) \<Rightarrow> (Inl err, s1\<lparr>out := out s1 @ evs\<rparr>)
             | (evs, None) \<Rightarrow>
                 resolve_only env cfg n (i + 1) es c (s1\<lparr>out := out s1 @ evs\<rparr>)))"
  by (cases r1) (simp_all only: resolve_only.simps assms prod.case sum.case)

lemma resolve_only_frame:
  "resolve_only env cfg n i es c s = (r, s') \<Longrightarrow> extends (is_link_query cfg) (\<lambda>_. True) s s'"
proof (induction es arbitrary: i c s)
  case Nil
  then have "s' = s" by simp
  then show ?case by (simp only: extends_refl)
next
  case (Cons e es)
  let ?s0 = "print (EntryLine i n (e ''sourceObjectId'') (e ''targetObjectId'')) s"
  have e0: "extends (is_link_query cfg) (\<lambda>_. True) s ?s0" by (rule extends_print) simp
  obtain r1 s1 where f: "find_link env cfg (e ''sourceObjectId'') (e ''targetObjectId'') ?s0
      = (r1, s1)" by force
  have e1: "extends (is_link_query cfg) (\<lambda>_. True) s s1"
    by (rule extends_trans [OF e0 find_link_link_query [OF f]])
  note u = Cons.prems [unfolded resolve_only_step [OF f]]
  show ?case
  proof (cases r1)
    case (Inl err)
    with u have "s' = s1" by (simp only: sum.case prod.inject)
    with e1 show ?thesis by (simp only:)
  next
    case (Inr links)
    show ?thesis
    proof (cases "links = []")
      case True
      let ?s2 = "print (WarnNoLink (mapping_name cfg)) s1"
      from u Inr True
      have q: "resolve_only env cfg n (i + 1) es (c\<lparr>not_found := not_found c + 1\<rparr>) ?s2 = (r, s')"
        by (simp only: sum.case simp_thms if_True)
      have e2: "extends (is_link_query cfg) (\<lambda>_. True) s1 ?s2" by (rule extends_print) simp
      show ?thesis
        by (rule extends_trans [OF extends_trans [OF e1 e2] Cons.IH [OF q]])
    next
      case False
      obtain evs eo where l: "list_links links = (evs, eo)" by force
      let ?s2 = "s1\<lparr>out := out s1 @ evs\<rparr>"
      have e2: "extends (is_link_query cfg) (\<lambda>_. True) s ?s2"
        by (rule extends_trans [OF e1 extends_out])
      from u Inr False l
      have v: "(case eo of Some err \<Rightarrow> (Inl err, ?s2)
                | None \<Rightarrow> resolve_only env cfg n (i + 1) es c ?s2) = (r, s')"
        by (simp only: sum.case simp_thms if_False prod.case)
      show ?thesis
      proof (cases eo)
        case (Some err)
        with v have "s' = ?s2" by (simp only: option.case prod.inject)
        with e2 show ?thesis by (simp only:)
      next
        case None
        with v have q: "resolve_only env cfg n (i + 1) es c ?s2 = (r, s')"
          by (simp only: option.case)
        show ?thesis by (rule extends_trans [OF e2 Cons.IH [OF q]])
      qed
    qed
  qed
qed

lemma delete_step_resolve_only:
  assumes "sample_size cfg = 0"
  shows "delete_step env cfg entries s =
     (case resolve_only env cfg (length entries) 1 entries zero_counters
             (print (DryRunMode (length entries)) s) of
        (Inl e, s2) \<Rightarrow> (Inl e, s2)
      | (Inr c, s2) \<Rightarrow>
          (Inr (Finished \<lparr>total_entries = length entries, sampled = None, links_deleted = 0,
                           links_not_found = not_found c, failures = 0, dry_run_note = True\<rparr>),
           print (SummaryLines \<lparr>total_entries = length entries, sampled = None,
                                 links_deleted = 0, links_not_found = not_found c,
                                 failures = 0, dry_run_note = True\<rparr>) s2))"
proof -
  let ?s1 = "print (DryRunMode (length entries)) s"
  obtain r2 s2 where p: "resolve_only env cfg (length entries) 1 entries zero_counters ?s1
      = (r2, s2)" by force
  have z: "deleted c = 0 \<and> failed c = 0" if "r2 = Inr c" for c
    using resolve_only_counters [OF p [unfolded that]] by (simp add: zero_counters_def)
  show ?thesis
  proof (cases r2)
    case (Inl e)
    with p assms show ?thesis
      by (simp add: delete_step_def Let_def to_process_zero announce_mode_def
          process_entries_resolve_only)
  next
    case (Inr c)
    with p assms z [OF Inr] show ?thesis
      by (simp add: delete_step_def Let_def to_process_zero announce_mode_def
          process_entries_resolve_only)
  qed
qed

text \<open>
  Claim C3, as the specification words it: with sample size 0 the per-entry loop runs
  over no entry.  On the script below (one run, one flagged entry, one link) the loop
  runs over that entry: \<open>to_process\<close> keeps it, its line is printed and its two link
  queries are sent.
\<close>

theorem dry_run_skips_entries_counterexample:
  "length (to_process (sample_size (demo_cfg 0)) [entry_a]) = 1
   \<and> filter is_entry_line (run_out scripted (demo_cfg 0) dry_script)
       = [EntryLine 1 1 (Some ''a'') None]
   \<and> map (meth \<circ> fst) (run_trace scripted (demo_cfg 0) dry_script) = [POST, GET, GET, GET, GET]"
  by code_simp

text \<open>
  Claim C3, amended.  With sample size 0 the per-entry loop runs over every fetched
  entry, and only the delete is skipped:
  \<^item> the list is not truncated;
  \<^item> the step is the resolution of each entry in turn: the entry line is printed, the
    links of the entry are resolved by \<open>find_link\<close> as in a real run, and an entry
    without link is warned about and counted, the links of any other are listed;
  \<^item> however the step ends, every request it has sent is a token request or a query
    \<open>GET /openidm/repo/link\<close>: no \<open>DELETE\<close> is sent;
  \<^item> a step that reaches the summary has printed one entry line for each fetched entry
    in fetch order, and the summary carries the number of fetched entries, no "Sampled"
    line, no deleted link, no failure and the dry-run note.
\<close>

theorem dry_run_processes_all_entries:
  "to_process 0 entries = entries
   \<and> (sample_size cfg = 0 \<longrightarrow>
       delete_step env cfg entries s =
         (case resolve_only env cfg (length entries) 1 entries zero_counters
                 (print (DryRunMode (length entries)) s) of
            (Inl e, s2) \<Rightarrow> (Inl e, s2)
          | (Inr c, s2) \<Rightarrow>
              (Inr (Finished \<lparr>total_entries = length entries, sampled = None,
                               links_deleted = 0, links_not_found = not_found c,
                               failures = 0, dry_run_note = True\<rparr>),
               print (SummaryLines \<lparr>total_entries = length entries, sampled = None,
                                     links_deleted = 0, links_not_found = not_found c,
                                     failures = 0, dry_run_note = True\<rparr>) s2))
       \<and> (\<forall>r s'. delete_step env cfg entries s = (r, s') \<longrightarrow>
            (\<exists>tr. trace s' = trace s @ tr
               \<and> (\<forall>x \<in> set tr. meth (fst x) = POST
                      \<or> (meth (fst x) = GET
                         \<and> url (fst x) = ''https://'' @ tenant_host cfg @ ''/openidm/repo/link'')))
            \<and> (\<forall>oc. r = Inr oc \<longrightarrow>
                 filter is_entry_line (out s') =
                   filter is_entry_line (out s) @
                     map (entry_line (length entries)) (zip [1 ..< 1 + length entries] entries)
                 \<and> (\<exists>sm. oc = Finished sm \<and> total_entries sm = length entries
                        \<and> sampled sm = None \<and> links_deleted sm = 0 \<and> failures sm = 0
                        \<and> dry_run_note sm))))"
proof -
  have a: "delete_step env cfg entries s =
         (case resolve_only env cfg (length entries) 1 entries zero_counters
                 (print (DryRunMode (length entries)) s) of
            (Inl e, s2) \<Rightarrow> (Inl e, s2)
          | (Inr c, s2) \<Rightarrow>
              (Inr (Finished \<lparr>total_entries = length entries, sampled = None,
                               links_deleted = 0, links_not_found = not_found c,
                               failures = 0, dry_run_note = True\<rparr>),
               print (SummaryLines \<lparr>total_entries = length entries, sampled = None,
                                     links_deleted = 0, links_not_found = not_found c,
                                     failures = 0, dry_run_note = True\<rparr>) s2))"
    if z: "sample_size cfg = 0"
    using z by (rule delete_step_resolve_only)
  have b: "(\<exists>tr. trace s' = trace s @ tr
               \<and> (\<forall>x \<in> set tr. meth (fst x) = POST
                      \<or> (meth (fst x) = GET
                         \<and> url (fst x) = ''https://'' @ tenant_host cfg @ ''/openidm/repo/link'')))
            \<and> (\<forall>oc. r = Inr oc \<longrightarrow>
                 filter is_entry_line (out s') =
                   filter is_entry_line (out s) @
                     map (entry_line (length entries)) (zip [1 ..< 1 + length entries] entries)
                 \<and> (\<exists>sm. oc = Finished sm \<and> total_entries sm = length entries
                        \<and> sampled sm = None \<and> links_deleted sm = 0 \<and> failures sm = 0
                        \<and> dry_run_note sm))"
    if z: "sample_size cfg = 0" and d: "delete_step env cfg entries s = (r, s')" for r s'
  proof -
    let ?s1 = "print (DryRunMode (length entries)) s"
    obtain r2 s2 where p: "resolve_only env cfg (length entries) 1 entries zero_counters ?s1
        = (r2, s2)" by force
    have e1: "extends (is_link_query cfg) (\<lambda>_. True) s ?s1" by (rule extends_print) simp
    note e2 = resolve_only_frame [OF p]
    have "extends (is_link_query cfg) (\<lambda>_. True) s2 s'"
      using d p unfolding a [OF z]
      by (cases r2) (auto simp: extends_refl intro: extends_print)
    with extends_trans [OF e1 e2] have "extends (is_link_query cfg) (\<lambda>_. True) s s'"
      by (rule extends_trans)
    then have t: "\<exists>tr. trace s' = trace s @ tr
               \<and> (\<forall>x \<in> set tr. meth (fst x) = POST
                      \<or> (meth (fst x) = GET
                         \<and> url (fst x) = ''https://'' @ tenant_host cfg @ ''/openidm/repo/link''))"
      unfolding extends_def is_link_query_def by blast
    have "filter is_entry_line (out s') =
                   filter is_entry_line (out s) @
                     map (entry_line (length entries)) (zip [1 ..< 1 + length entries] entries)
                 \<and> (\<exists>sm. oc = Finished sm \<and> total_entries sm = length entries
                        \<and> sampled sm = None \<and> links_deleted sm = 0 \<and> failures sm = 0
                        \<and> dry_run_note sm)"
      if r: "r = Inr oc" for oc
    proof -
      from d r have d': "delete_step env cfg entries s = (Inr oc, s')" by simp
      from delete_step_entry_lines [OF d'] z
      have l: "filter is_entry_line (out s') =
                   filter is_entry_line (out s) @
                     map (entry_line (length entries)) (zip [1 ..< 1 + length entries] entries)"
        by (simp only: to_process_zero)
      from delete_step_summary [OF d'] z
      obtain sm where sm: "oc = Finished sm" "total_entries sm = length entries"
        "sampled sm = None" "dry_run_note sm" by auto
      from delete_step_dry_frame [OF z d] r sm(1)
      have "links_deleted sm = 0" "failures sm = 0" by simp_all
      with l sm show ?thesis by simp
    qed
    with t show ?thesis by blast
  qed
  show ?thesis
  proof (intro conjI impI)
    show "to_process 0 entries = entries" by (rule to_process_zero)
  next
    assume "sample_size cfg = 0"
    then show "delete_step env cfg entries s =
         (case resolve_only env cfg (length entries) 1 entries zero_counters
                 (print (DryRunMode (length entries)) s) of
            (Inl e, s2) \<Rightarrow> (Inl e, s2)
          | (Inr c, s2) \<Rightarrow>
              (Inr (Finished \<lparr>total_entries = length entries, sampled = None,
                               links_deleted = 0, links_not_found = not_found c,
                               failures = 0, dry_run_note = True\<rparr>),
               print (SummaryLines \<lparr>total_entries = length entries, sampled = None,
                                     links_deleted = 0, links_not_found = not_found c,
                                     failures = 0, dry_run_note = True\<rparr>) s2))"
      by (rule a)
  next
    assume z: "sample_size cfg = 0"
    show "\<forall>r s'. delete_step env cfg entries s = (r, s') \<longrightarrow>
            (\<exists>tr. trace s' = trace s @ tr
               \<and> (\<forall>x \<in> set tr. meth (fst x) = POST
                      \<or> (meth (fst x) = GET
                         \<and> url (fst x) = ''https://'' @ tenant_host cfg @ ''/openidm/repo/link'')))
            \<and> (\<forall>oc. r = Inr oc \<longrightarrow>
                 filter is_entry_line (out s') =
                   filter is_entry_line (out s) @
                     map (entry_line (length entries)) (zip [1 ..< 1 + length entries] entries)
                 \<and> (\<exists>sm. oc = Finished sm \<and> total_entries sm = length entries
                        \<and> sampled sm = None \<and> links_deleted sm = 0 \<and> failures sm = 0
                        \<and> dry_run_note sm))"
      using b [OF z] by (intro allI impI)
  qed
qed

theorem dry_run_processes_all_entries_witness:
  "sample_size (demo_cfg 0) = 0
   \<and> fst (delete_step tenant (demo_cfg 0) [entry_a, entry_b, entry_c] (init_state stored_links))
       = Inr (Finished \<lparr>total_entries = 3, sampled = None, links_deleted = 0,
                         links_not_found = 1, failures = 0, dry_run_note = True\<rparr>)
   \<and> filter is_entry_line
       (out (snd (delete_step tenant (demo_cfg 0) [entry_a, entry_b, entry_c]
                    (init_state stored_links))))
       = [EntryLine 1 3 (Some ''a'') None, EntryLine 2 3 (Some ''b'') (Some []),
          EntryLine 3 3 (Some ''c'') (Some ''d'')]
   \<and> filter (\<lambda>x. meth (fst x) \<noteq> POST \<and> meth (fst x) \<noteq> GET)
       (trace (snd (delete_step tenant (demo_cfg 0) [entry_a, entry_b, entry_c]
                      (init_state stored_links)))) = []
   \<and> map (\<lambda>x. (meth (fst x), params (fst x)))
       (trace (snd (delete_step tenant (demo_cfg 0) [entry_a, entry_b, entry_c]
                      (init_state stored_links))))
       = [(POST, []),
          (GET, [(''_queryFilter'', ''firstId eq '' @ [CHR 0x22] @ ''a'' @ [CHR 0x22])]),
          (GET, [(''_queryFilter'', ''secondId eq '' @ [CHR 0x22] @ ''a'' @ [CHR 0x22])]),
          (GET, [(''_queryFilter'', ''firstId eq '' @ [CHR 0x22] @ ''b'' @ [CHR 0x22])]),
          (GET, [(''_queryFilter'', ''secondId eq '' @ [CHR 0x22] @ ''b'' @ [CHR 0x22])]),
          (GET, [(''_queryFilter'', ''firstId eq '' @ [CHR 0x22] @ ''c'' @ [CHR 0x22])]),
          (GET, [(''_queryFilter'', ''secondId eq '' @ [CHR 0x22] @ ''c'' @ [CHR 0x22])]),
          (GET, [(''_queryFilter'', ''firstId eq '' @ [CHR 0x22] @ ''d'' @ [CHR 0x22])]),
          (GET, [(''_queryFilter'', ''secondId eq '' @ [CHR 0x22] @ ''d'' @ [CHR 0x22])])]
   \<and> filter (\<lambda>e. \<not> is_entry_line e \<and> e \<noteq> TokenAcquired)
       (out (snd (delete_step tenant (demo_cfg 0) [entry_a, entry_b, entry_c]
                    (init_state stored_links))))
       = [DryRunMode 3,
          FoundLink ''L1'' ''a'' ''x'', WouldDelete ''L1'',
          FoundLink ''L3'' ''z'' ''a'', WouldDelete ''L3'',
          FoundLink ''L4'' ''b'' ''w'', WouldDelete ''L4'',
          WarnNoLink ''m'',
          SummaryLines \<lparr>total_entries = 3, sampled = None, links_deleted = 0,
                         links_not_found = 1, failures = 0, dry_run_note = True\<rparr>]"
proof -
  let ?run = "delete_step tenant (demo_cfg 0) [entry_a, entry_b, entry_c] (init_state stored_links)"
  have h: "sample_size (demo_cfg 0) = 0" by (simp add: demo_cfg_def)
  have r: "fst ?run = Inr (Finished \<lparr>total_entries = 3, sampled = None, links_deleted = 0,
                         links_not_found = 1, failures = 0, dry_run_note = True\<rparr>)"
    by code_simp
  then have d: "?run = (Inr (Finished \<lparr>total_entries = 3, sampled = None, links_deleted = 0,
                         links_not_found = 1, failures = 0, dry_run_note = True\<rparr>), snd ?run)"
    by (metis prod.collapse)
  note c3 = dry_run_processes_all_entries [of "[entry_a, entry_b, entry_c]" "demo_cfg 0" tenant
      "init_state stored_links", THEN conjunct2, THEN mp, OF h, THEN conjunct2, rule_format, OF d]
  from conjunct1 [OF c3] obtain tr where tr: "trace (snd ?run) = trace (init_state stored_links) @ tr"
    "\<forall>x \<in> set tr. meth (fst x) = POST
        \<or> (meth (fst x) = GET
           \<and> url (fst x) = ''https://'' @ tenant_host (demo_cfg 0) @ ''/openidm/repo/link'')"
    by blast
  then have t: "filter (\<lambda>x. meth (fst x) \<noteq> POST \<and> meth (fst x) \<noteq> GET) (trace (snd ?run)) = []"
    by (auto simp: init_state_def filter_empty_conv)
  from conjunct2 [OF c3, rule_format, OF refl]
  have l: "filter is_entry_line (out (snd ?run))
        = [EntryLine 1 3 (Some ''a'') None, EntryLine 2 3 (Some ''b'') (Some []),
           EntryLine 3 3 (Some ''c'') (Some ''d'')]"
    by (simp add: init_state_def entry_line_def entry_a_def entry_b_def entry_c_def upt_rec)
  have q: "map (\<lambda>x. (meth (fst x), params (fst x))) (trace (snd ?run))
       = [(POST, []),
          (GET, [(''_queryFilter'', ''firstId eq '' @ [CHR 0x22] @ ''a'' @ [CHR 0x22])]),
          (GET, [(''_queryFilter'', ''secondId eq '' @ [CHR 0x22] @ ''a'' @ [CHR 0x22])]),
          (GET, [(''_queryFilter'', ''firstId eq '' @ [CHR 0x22] @ ''b'' @ [CHR 0x22])]),
          (GET, [(''_queryFilter'', ''secondId eq '' @ [CHR 0x22] @ ''b'' @ [CHR 0x22])]),
          (GET, [(''_queryFilter'', ''firstId eq '' @ [CHR 0x22] @ ''c'' @ [CHR 0x22])]),
          (GET, [(''_queryFilter'', ''secondId eq '' @ [CHR 0x22] @ ''c'' @ [CHR 0x22])]),
          (GET, [(''_queryFilter'', ''firstId eq '' @ [CHR 0x22] @ ''d'' @ [CHR 0x22])]),
          (GET, [(''_queryFilter'', ''secondId eq '' @ [CHR 0x22] @ ''d'' @ [CHR 0x22])])]"
    by code_simp
  have o: "filter (\<lambda>e. \<not> is_entry_line e \<and> e \<noteq> TokenAcquired) (out (snd ?run))
       = [DryRunMode 3,
          FoundLink ''L1'' ''a'' ''x'', WouldDelete ''L1'',
          FoundLink ''L3'' ''z'' ''a'', WouldDelete ''L3'',
          FoundLink ''L4'' ''b'' ''w'', WouldDelete ''L4'',
          WarnNoLink ''m'',
          SummaryLines \<lparr>total_entries = 3, sampled = None, links_deleted = 0,
                         links_not_found = 1, failures = 0, dry_run_note = True\<rparr>]"
    by code_simp
  from h r l t q o show ?thesis by simp
qed

section \<open>Only links of the configured mapping are deleted\<close>

lemma returned_links_append:
  "returned_links cfg (tr @ tr') = returned_links cfg tr @ returned_links cfg tr'"
  by (simp add: returned_links_def)

lemma extends_returned:
  assumes "extends Q E s s'" and "l \<in> set (returned_links cfg (trace s))"
  shows "l \<in> set (returned_links cfg (trace s'))"
proof -
  from assms(1) obtain tr where "trace s' = trace s @ tr" unfolding extends_def by blast
  with assms(2) show ?thesis by (simp add: returned_links_append)
qed

lemma justified_mono:
  assumes "extends Q E s s'" and "justified cfg (trace s) q"
  shows "justified cfg (trace s') q"
  using assms unfolding justified_def by (blast intro: extends_returned)

lemma deletes_justified_extends:
  assumes inv: "deletes_justified cfg (trace s)"
    and ex: "extends Q E s s'"
    and new: "\<And>q. Q q \<Longrightarrow> meth q = DELETE \<Longrightarrow> justified cfg (trace s') q"
  shows "deletes_justified cfg (trace s')"
proof -
  from ex obtain tr where tr: "trace s' = trace s @ tr" "\<forall>x \<in> set tr. Q (fst x)"
    unfolding extends_def by blast
  have "justified cfg (trace s') (fst x)" if "x \<in> set (trace s')" "meth (fst x) = DELETE" for x
  proof (cases "x \<in> set (trace s)")
    case True
    with inv that(2) have "justified cfg (trace s) (fst x)"
      unfolding deletes_justified_def by blast
    with ex show ?thesis by (rule justified_mono)
  next
    case False
    with that(1) tr have "Q (fst x)" by auto
    then show ?thesis using that(2) by (rule new)
  qed
  then show ?thesis unfolding deletes_justified_def by blast
qed

lemma deletes_justified_no_delete:
  assumes "deletes_justified cfg (trace s)" and "extends no_delete E s s'"
  shows "deletes_justified cfg (trace s')"
  using assms by (rule deletes_justified_extends) (simp add: no_delete_def)

lemma deletes_justified_print:
  "deletes_justified cfg (trace (print e s)) = deletes_justified cfg (trace s)"
  by (simp add: print_def)

lemma api_get_links:
  assumes "api_get env cfg ''/repo/link'' ps s = (Inr (Some data), s')"
    and "l \<in> set (get_result data)"
  shows "l \<in> set (returned_links cfg (trace s'))"
proof -
  from api_get_return [OF assms(1)] obtain tok code where
    x: "(mk_request cfg GET ''/repo/link'' ps None tok, Reply code data) \<in> set (trace s')"
    and ok: "\<not> raise_for_status code" by blast
  have "l \<in> set (reply_links cfg (mk_request cfg GET ''/repo/link'' ps None tok, Reply code data))"
    using assms(2) ok by (simp add: mk_request_def)
  with x show ?thesis unfolding returned_links_def set_concat set_map by blast
qed

lemma query_fields_links:
  "query_fields env cfg sid flds cands s = (Inr cands', s') \<Longrightarrow> l \<in> set cands' \<Longrightarrow>
   l \<in> set cands \<or> l \<in> set (returned_links cfg (trace s'))"
proof (induction flds arbitrary: cands s)
  case Nil
  then show ?case by simp
next
  case (Cons f flds)
  obtain r1 s1 where g: "api_get env cfg ''/repo/link'' (link_filter f sid) s = (r1, s1)"
    by force
  from Cons.prems(1) g obtain data where r1: "r1 = Inr (Some data)"
    and rest: "query_fields env cfg sid flds (cands @ get_result data) s1 = (Inr cands', s')"
    by (cases r1) (auto split: option.splits)
  from Cons.IH [OF rest Cons.prems(2)]
  have "l \<in> set cands \<or> l \<in> set (get_result data) \<or> l \<in> set (returned_links cfg (trace s'))"
    by auto
  moreover have "l \<in> set (returned_links cfg (trace s'))" if "l \<in> set (get_result data)"
  proof -
    from g r1 that have "l \<in> set (returned_links cfg (trace s1))"
      by (auto intro: api_get_links)
    with query_fields_extends [OF rest] show ?thesis by (rule extends_returned)
  qed
  ultimately show ?case by blast
qed

lemma query_ids_links:
  "query_ids env cfg ids cands s = (Inr cands', s') \<Longrightarrow> l \<in> set cands' \<Longrightarrow>
   l \<in> set cands \<or> l \<in> set (returned_links cfg (trace s'))"
proof (induction ids arbitrary: cands s)
  case Nil
  then show ?case by simp
next
  case (Cons i ids)
  obtain r1 s1 where g: "query_fields env cfg i [''firstId'', ''secondId''] cands s = (r1, s1)"
    by force
  from Cons.prems(1) g obtain c1 where r1: "r1 = Inr c1"
    and rest: "query_ids env cfg ids c1 s1 = (Inr cands', s')"
    by (cases r1) auto
  from Cons.IH [OF rest Cons.prems(2)]
  have "l \<in> set c1 \<or> l \<in> set (returned_links cfg (trace s'))" .
  moreover have "l \<in> set cands \<or> l \<in> set (returned_links cfg (trace s'))" if "l \<in> set c1"
  proof -
    from query_fields_links [OF g [unfolded r1] that]
    have "l \<in> set cands \<or> l \<in> set (returned_links cfg (trace s1))" .
    with query_ids_extends [OF rest] show ?thesis by (blast intro: extends_returned)
  qed
  ultimately show ?case by blast
qed

lemma find_link_links:
  assumes "find_link env cfg a b s = (Inr links, s')" and "l \<in> set links"
  shows "l ''linkType'' = Some (mapping_name cfg) \<and> l \<in> set (returned_links cfg (trace s'))"
proof -
  obtain r1 s1 where q: "query_ids env cfg (search_ids env a b) [] s = (r1, s1)" by force
  from assms(1) q obtain cands u where r1: "r1 = Inr cands"
    and d: "dedupe cands {} [] = Inr u"
    and k: "links = filter (\<lambda>c. c ''linkType'' = Some (mapping_name cfg)) u" "s' = s1"
    by (cases r1) (auto simp: find_link_def split: sum.splits)
  from assms(2) k have lt: "l ''linkType'' = Some (mapping_name cfg)" and "l \<in> set u"
    by simp_all
  with dedupe_sound [OF d] have "l \<in> set cands" by auto
  from query_ids_links [OF q [unfolded r1] this] k
  have "l \<in> set (returned_links cfg (trace s'))" by simp
  with lt show ?thesis by simp
qed

lemma process_link_justified:
  assumes inv: "deletes_justified cfg (trace s)"
    and seen: "l \<in> set (returned_links cfg (trace s))"
    and lt: "l ''linkType'' = Some (mapping_name cfg)"
    and run: "process_link env cfg dry l c s = (r, s')"
  shows "deletes_justified cfg (trace s')"
proof (cases "l ''_id'' = None \<or> l ''_rev'' = None \<or> l ''firstId'' = None
    \<or> l ''secondId'' = None \<or> dry")
  case True
  then have "trace s' = trace s"
    using run by (auto simp: process_link_def print_def split: option.splits)
  with inv show ?thesis by simp
next
  case False
  then obtain i rv f sd where k: "l ''_id'' = Some i" "l ''_rev'' = Some rv"
    "l ''firstId'' = Some f" "l ''secondId'' = Some sd" and nd: "\<not> dry" by auto
  let ?s1 = "print (FoundLink i f sd) s"
  obtain r2 s2 where d: "api_delete env cfg (''/repo/link/'' @ i) rv ?s1 = (r2, s2)" by force
  have i1: "deletes_justified cfg (trace ?s1)" using inv by (simp add: deletes_justified_print)
  have s1: "l \<in> set (returned_links cfg (trace ?s1))" using seen by (simp add: print_def)
  note ex = api_delete_extends [OF d]
  have "justified cfg (trace s2) q"
    if "issued cfg DELETE (''/repo/link/'' @ i) [] (Some rv) q" "meth q = DELETE" for q
  proof -
    from that obtain tok where "q = mk_request cfg DELETE (''/repo/link/'' @ i) [] (Some rv) tok"
      unfolding issued_def by auto
    then have "delete_target cfg l q"
      using k by (simp add: delete_target_def mk_request_def)
    moreover from ex s1 have "l \<in> set (returned_links cfg (trace s2))"
      by (rule extends_returned)
    ultimately show ?thesis using lt unfolding justified_def by blast
  qed
  with i1 ex have i2: "deletes_justified cfg (trace s2)" by (rule deletes_justified_extends)
  have "trace s' = trace s2"
    using run k nd d by (cases r2) (auto simp: process_link_def print_def split: if_splits)
  with i2 show ?thesis by simp
qed

lemma process_links_justified:
  "deletes_justified cfg (trace s) \<Longrightarrow>
   \<forall>l \<in> set links. l ''linkType'' = Some (mapping_name cfg)
                   \<and> l \<in> set (returned_links cfg (trace s)) \<Longrightarrow>
   process_links env cfg dry links c s = (r, s') \<Longrightarrow>
   deletes_justified cfg (trace s')"
proof (induction links arbitrary: c s)
  case Nil
  then show ?case by simp
next
  case (Cons l links)
  obtain r1 s1 where p: "process_link env cfg dry l c s = (r1, s1)" by force
  from Cons.prems(2) have l: "l ''linkType'' = Some (mapping_name cfg)"
    "l \<in> set (returned_links cfg (trace s))" by simp_all
  have i1: "deletes_justified cfg (trace s1)"
    using Cons.prems(1) l(2) l(1) p by (rule process_link_justified)
  show ?case
  proof (cases r1)
    case (Inl e)
    with Cons.prems(3) p have "s' = s1" by simp
    with i1 show ?thesis by simp
  next
    case (Inr c1)
    with Cons.prems(3) p have rest: "process_links env cfg dry links c1 s1 = (r, s')" by simp
    have "\<forall>l \<in> set links. l ''linkType'' = Some (mapping_name cfg)
                   \<and> l \<in> set (returned_links cfg (trace s1))"
      using Cons.prems(2) process_link_extends [OF p] by (auto intro: extends_returned)
    with i1 show ?thesis using rest by (rule Cons.IH)
  qed
qed

lemma process_entry_justified:
  assumes inv: "deletes_justified cfg (trace s)"
    and run: "process_entry env cfg dry n i entry c s = (r, s')"
  shows "deletes_justified cfg (trace s')"
proof -
  let ?s1 = "print (EntryLine i n (entry ''sourceObjectId'') (entry ''targetObjectId'')) s"
  have i1: "deletes_justified cfg (trace ?s1)" using inv by (simp add: deletes_justified_print)
  obtain r2 s2 where f: "find_link env cfg (entry ''sourceObjectId'') (entry ''targetObjectId'') ?s1
      = (r2, s2)" by force
  have "extends no_delete quiet ?s1 s2"
    using find_link_extends [OF f] unfolding no_delete_def .
  with i1 have i2: "deletes_justified cfg (trace s2)" by (rule deletes_justified_no_delete)
  show ?thesis
  proof (cases r2)
    case (Inl e)
    with run f have "s' = s2" by (simp add: process_entry_def Let_def)
    with i2 show ?thesis by simp
  next
    case (Inr links)
    show ?thesis
    proof (cases "links = []")
      case True
      with run f Inr have "s' = print (WarnNoLink (mapping_name cfg)) s2"
        by (simp add: process_entry_def Let_def)
      with i2 show ?thesis by (simp add: deletes_justified_print)
    next
      case False
      with run f Inr have p: "process_links env cfg dry links c s2 = (r, s')"
        by (simp add: process_entry_def Let_def)
      have "\<forall>l \<in> set links. l ''linkType'' = Some (mapping_name cfg)
                   \<and> l \<in> set (returned_links cfg (trace s2))"
        using find_link_links [OF f [unfolded Inr]] by blast
      with i2 show ?thesis using p by (rule process_links_justified)
    qed
  qed
qed

lemma process_entries_justified:
  "deletes_justified cfg (trace s) \<Longrightarrow>
   process_entries env cfg dry n i es c s = (r, s') \<Longrightarrow>
   deletes_justified cfg (trace s')"
proof (induction es arbitrary: i c s)
  case Nil
  then show ?case by simp
next
  case (Cons e es)
  obtain r1 s1 where p: "process_entry env cfg dry n i e c s = (r1, s1)" by force
  have i1: "deletes_justified cfg (trace s1)"
    using Cons.prems(1) p by (rule process_entry_justified)
  show ?case
  proof (cases r1)
    case (Inl err)
    with Cons.prems(2) p have "s' = s1" by simp
    with i1 show ?thesis by simp
  next
    case (Inr c1)
    with Cons.prems(2) p have "process_entries env cfg dry n (i + 1) es c1 s1 = (r, s')" by simp
    with i1 show ?thesis by (rule Cons.IH)
  qed
qed

lemma delete_step_justified:
  assumes inv: "deletes_justified cfg (trace s)"
    and run: "delete_step env cfg entries s = (r, s')"
  shows "deletes_justified cfg (trace s')"
proof -
  let ?todo = "to_process (sample_size cfg) entries"
  let ?s1 = "announce_mode (sample_size cfg) entries s"
  have "trace ?s1 = trace s" by (simp add: announce_mode_def print_def)
  with inv have i1: "deletes_justified cfg (trace ?s1)" by simp
  obtain r2 s2 where p: "process_entries env cfg (sample_size cfg = 0) (length ?todo) 1 ?todo
      zero_counters ?s1 = (r2, s2)" by force
  have i2: "deletes_justified cfg (trace s2)"
    using i1 p by (rule process_entries_justified)
  have "trace s' = trace s2"
    using run p by (cases r2) (auto simp: delete_step_def Let_def print_def)
  with i2 show ?thesis by simp
qed

lemma no_deletes_justified:
  assumes "extends no_delete E (init_state w) s"
  shows "deletes_justified cfg (trace s)"
  using extends_from_init [OF assms] unfolding deletes_justified_def by blast

text \<open>
  Claim C1.  Every record \<open>find_link\<close> returns has \<open>linkType\<close> equal to the configured
  mapping name (so a candidate of another link type is in no resolved set, whatever its
  endpoint ids), and was returned by the service to one of the link queries.  In every
  finished run of \<open>main\<close>, each \<open>DELETE\<close> request sent addresses such a record: its URL
  carries the \<open>_id\<close>, and its \<open>If-Match\<close> header the \<open>_rev\<close>, of a record of the
  configured link type that the service had returned.
\<close>

theorem deletes_only_matching_link_type:
  "(\<forall>source_id target_id s links s'.
      find_link env cfg source_id target_id s = (Inr links, s') \<longrightarrow>
        (\<forall>l \<in> set links. l ''linkType'' = Some (mapping_name cfg)
                         \<and> l \<in> set (returned_links cfg (trace s')))
        \<and> (\<forall>l. l ''linkType'' \<noteq> Some (mapping_name cfg) \<longrightarrow> l \<notin> set links))
   \<and> (\<forall>r s'. main env cfg w = Some (r, s') \<longrightarrow>
        (\<forall>x \<in> set (trace s'). meth (fst x) = DELETE \<longrightarrow>
           (\<exists>l \<in> set (returned_links cfg (trace s')).
              l ''linkType'' = Some (mapping_name cfg) \<and> delete_target cfg l (fst x))))"
proof -
  have a: "(\<forall>l \<in> set links. l ''linkType'' = Some (mapping_name cfg)
                         \<and> l \<in> set (returned_links cfg (trace s')))
        \<and> (\<forall>l. l ''linkType'' \<noteq> Some (mapping_name cfg) \<longrightarrow> l \<notin> set links)"
    if "find_link env cfg source_id target_id s = (Inr links, s')"
    for source_id target_id s links s'
    using find_link_links [OF that] by blast
  have b: "\<forall>x \<in> set (trace s'). meth (fst x) = DELETE \<longrightarrow>
           (\<exists>l \<in> set (returned_links cfg (trace s')).
              l ''linkType'' = Some (mapping_name cfg) \<and> delete_target cfg l (fst x))"
    if m: "main env cfg w = Some (r, s')" for r s'
  proof -
    have "deletes_justified cfg (trace s')"
      using main_cases [OF m]
    proof (elim disjE conjE exE)
      assume "extends no_delete setup_event (init_state w) s'"
      then show ?thesis by (rule no_deletes_justified)
    next
      fix entries s5
      assume "extends no_delete setup_event (init_state w) s5"
        and d: "delete_step env cfg entries s5 = (r, s')"
      then have "deletes_justified cfg (trace s5)" by (intro no_deletes_justified)
      then show ?thesis using d by (rule delete_step_justified)
    qed
    then show ?thesis unfolding deletes_justified_def justified_def .
  qed
  show ?thesis
  proof (intro conjI)
    show "\<forall>source_id target_id s links s'.
      find_link env cfg source_id target_id s = (Inr links, s') \<longrightarrow>
        (\<forall>l \<in> set links. l ''linkType'' = Some (mapping_name cfg)
                         \<and> l \<in> set (returned_links cfg (trace s')))
        \<and> (\<forall>l. l ''linkType'' \<noteq> Some (mapping_name cfg) \<longrightarrow> l \<notin> set links)"
      using a by (intro allI impI)
  next
    show "\<forall>r s'. main env cfg w = Some (r, s') \<longrightarrow>
        (\<forall>x \<in> set (trace s'). meth (fst x) = DELETE \<longrightarrow>
           (\<exists>l \<in> set (returned_links cfg (trace s')).
              l ''linkType'' = Some (mapping_name cfg) \<and> delete_target cfg l (fst x)))"
      using b by (intro allI impI)
  qed
qed

theorem deletes_only_matching_link_type_witness:
  "(\<exists>links s'. find_link scripted (demo_cfg (-1)) (Some ''a'') None (init_state both_fields_script)
                  = (Inr links, s')
        \<and> (\<forall>l \<in> set links. l ''linkType'' = Some ''m'') \<and> link_other \<notin> set links)
   \<and> (\<exists>r s'. main scripted (demo_cfg (-1)) cross_script = Some (r, s')
        \<and> (\<forall>x \<in> set (trace s'). meth (fst x) = DELETE \<longrightarrow>
              (\<exists>l \<in> set (returned_links (demo_cfg (-1)) (trace s')).
                 l ''linkType'' = Some ''m'' \<and> delete_target (demo_cfg (-1)) l (fst x))))
   \<and> map (url \<circ> fst) (filter (\<lambda>x. meth (fst x) = DELETE)
         (run_trace scripted (demo_cfg (-1)) cross_script))
       = [''https://idm.example/openidm/repo/link/L1'',
          ''https://idm.example/openidm/repo/link/L3'']
   \<and> run_result scripted (demo_cfg (-1)) cross_script
       = Some (Inr (Finished \<lparr>total_entries = 1, sampled = None, links_deleted = 2,
                                links_not_found = 0, failures = 0, dry_run_note = False\<rparr>))"
proof -
  let ?cfg = "demo_cfg (-1)"
  note c1 = deletes_only_matching_link_type [of scripted ?cfg cross_script]
  have mn: "mapping_name ?cfg = ''m''" by (simp add: demo_cfg_def)
  let ?f = "find_link scripted ?cfg (Some ''a'') None (init_state both_fields_script)"
  have "case fst ?f of Inr _ \<Rightarrow> True | Inl _ \<Rightarrow> False" by code_simp
  then obtain links where "fst ?f = Inr links" by (cases "fst ?f") auto
  then have f: "?f = (Inr links, snd ?f)" by (metis prod.collapse)
  note c1f = conjunct1 [OF c1, rule_format, OF f]
  have lo: "link_other ''linkType'' \<noteq> Some (mapping_name ?cfg)"
    unfolding mn by (simp add: demo_link_members)
  have "link_other \<notin> set links"
    using spec [OF conjunct2 [OF c1f], where x = link_other] lo by (rule mp)
  moreover have "\<forall>l \<in> set links. l ''linkType'' = Some ''m''"
  proof
    fix l
    assume "l \<in> set links"
    with conjunct1 [OF c1f]
    have "l ''linkType'' = Some (mapping_name ?cfg)
          \<and> l \<in> set (returned_links ?cfg (trace (snd ?f)))"
      by (rule bspec)
    then show "l ''linkType'' = Some ''m''" unfolding mn by (rule conjunct1)
  qed
  ultimately have "(\<forall>l \<in> set links. l ''linkType'' = Some ''m'') \<and> link_other \<notin> set links"
    by (intro conjI)
  with f have a: "\<exists>links s'. ?f = (Inr links, s')
        \<and> (\<forall>l \<in> set links. l ''linkType'' = Some ''m'') \<and> link_other \<notin> set links"
    by blast
  have "case main scripted ?cfg cross_script of None \<Rightarrow> False | Some _ \<Rightarrow> True"
    by code_simp
  then obtain r s' where m: "main scripted ?cfg cross_script = Some (r, s')"
    by (cases "main scripted ?cfg cross_script") auto
  note c1m = conjunct2 [OF c1, rule_format, OF m]
  have "\<forall>x \<in> set (trace s'). meth (fst x) = DELETE \<longrightarrow>
              (\<exists>l \<in> set (returned_links ?cfg (trace s')).
                 l ''linkType'' = Some (mapping_name ?cfg) \<and> delete_target ?cfg l (fst x))"
    using c1m by (intro ballI impI)
  with m have b: "\<exists>r s'. main scripted ?cfg cross_script = Some (r, s')
        \<and> (\<forall>x \<in> set (trace s'). meth (fst x) = DELETE \<longrightarrow>
              (\<exists>l \<in> set (returned_links ?cfg (trace s')).
                 l ''linkType'' = Some ''m'' \<and> delete_target ?cfg l (fst x)))"
    unfolding mn by blast
  have c: "map (url \<circ> fst) (filter (\<lambda>x. meth (fst x) = DELETE)
         (run_trace scripted ?cfg cross_script))
       = [''https://idm.example/openidm/repo/link/L1'',
          ''https://idm.example/openidm/repo/link/L3'']"
    by code_simp
  have d: "run_result scripted ?cfg cross_script
       = Some (Inr (Finished \<lparr>total_entries = 1, sampled = None, links_deleted = 2,
                                links_not_found = 0, failures = 0, dry_run_note = False\<rparr>))"
    by code_simp
  from a b c d show ?thesis by blast
qed

end
